theory Spec2Isabelle
  imports Complex_Main "HOL-Library.Log_Nat"
begin

section \<open>Game states consumed by the evaluators\<close>

text \<open>
  The evaluators of \<^verbatim>\<open>src/projects/proj2/evaluation.py\<close> read a game state through
  accessors only. A connect-four cell holds a player's piece or nothing; a line is the
  sequence of cells that \<^verbatim>\<open>get_lines()\<close> yields. A soccer state answers
  \<^verbatim>\<open>get_goal_position(player_id)\<close>, \<^verbatim>\<open>get_ball_position()\<close> and
  \<^verbatim>\<open>get_possession()\<close>; positions are grid cells, pairs of Python integers, and the
  possession is a player identity or none. The evaluators take any Python object as
  \<^verbatim>\<open>state\<close> and test its class with \<^verbatim>\<open>isinstance\<close>: \<open>Other\<close> stands for an object
  of neither class.
\<close>

datatype cell = Empty | Piece int

record Connect4State =
  get_lines :: "cell list list"

record SoccerState =
  get_goal_position :: "int \<Rightarrow> int \<times> int"
  get_ball_position :: "int \<times> int"
  get_possession :: "int option"

datatype game_state = Soccer SoccerState | Connect4 Connect4State | Other

text \<open>
  The exceptions an evaluation can raise: \<^verbatim>\<open>ValueError\<close> and \<^verbatim>\<open>OverflowError\<close> with
  their messages, the first from the \<^verbatim>\<open>raise\<close> of the guards and from \<^verbatim>\<open>math.sqrt\<close>,
  the second from \<^verbatim>\<open>math.sqrt\<close>; \<^verbatim>\<open>NameError\<close> with the name that is not bound and
  \<^verbatim>\<open>AttributeError\<close> with the attribute that the object does not have.
\<close>

datatype error =
    ValueError string
  | OverflowError string
  | NameError string
  | AttributeError string

definition incompatible :: error where
  "incompatible = ValueError ''Evaluation function incompatible with game type.''"

section \<open>The names of the module\<close>

text \<open>
  The guards name the state classes through global names of the module,
  \<^verbatim>\<open>discrete_soccer.SoccerState\<close> and \<^verbatim>\<open>connect_four.Connect4State\<close>, and Python looks
  a global name up when the guard runs, in the globals as the execution of the module
  has left them. The module binds its names in this order: line 3 binds \<^verbatim>\<open>math\<close>, line 4
  binds \<^verbatim>\<open>discrete_soccer\<close> and \<^verbatim>\<open>connect_four\<close> to the two modules of the game library,
  line 6 binds \<^verbatim>\<open>soccer\<close> to the first evaluator, and line 47,
  \<^verbatim>\<open>def connect_four(state, player_id)\<close>, binds \<^verbatim>\<open>connect_four\<close> again, to the second
  evaluator. A later binding replaces an earlier one of the same name.
\<close>

datatype py_class = SoccerStateClass | Connect4StateClass

datatype py_object = Module string | Function string

definition module_globals :: "string \<rightharpoonup> py_object" where
  "module_globals =
     [''math'' \<mapsto> Module ''math'',
      ''discrete_soccer'' \<mapsto> Module ''discrete_soccer'',
      ''connect_four'' \<mapsto> Module ''connect_four'',
      ''soccer'' \<mapsto> Function ''soccer'',
      ''connect_four'' \<mapsto> Function ''connect_four'']"

text \<open>
  Modelled from the spec: the game library \<^verbatim>\<open>lib.game\<close> is not among the source files.
  Its modules \<^verbatim>\<open>discrete_soccer\<close> and \<^verbatim>\<open>connect_four\<close> are taken to define the state
  classes that the guards name, \<^verbatim>\<open>SoccerState\<close> and \<^verbatim>\<open>Connect4State\<close>. A function
  object has neither attribute.
\<close>

fun getattr :: "py_object \<Rightarrow> string \<Rightarrow> error + py_class" where
  "getattr (Module m) a =
     (if m = ''discrete_soccer'' \<and> a = ''SoccerState'' then Inr SoccerStateClass
      else if m = ''connect_four'' \<and> a = ''Connect4State'' then Inr Connect4StateClass
      else Inl (AttributeError a))"
| "getattr (Function f) a = Inl (AttributeError a)"

definition global_attribute :: "string \<Rightarrow> string \<Rightarrow> error + py_class" where
  "global_attribute name a =
     (case module_globals name of
        None \<Rightarrow> Inl (NameError name)
      | Some obj \<Rightarrow> getattr obj a)"

fun isinstance :: "game_state \<Rightarrow> py_class \<Rightarrow> bool" where
  "isinstance (Soccer s) c = (c = SoccerStateClass)"
| "isinstance (Connect4 s) c = (c = Connect4StateClass)"
| "isinstance Other c = False"

section \<open>The connect-four evaluator\<close>

text \<open>The nested function \<^verbatim>\<open>score_alignment\<close>: an \<^verbatim>\<open>if\<close>/\<^verbatim>\<open>elif\<close> chain, first match wins.\<close>

definition score_alignment :: "int \<Rightarrow> int \<Rightarrow> int" where
  "score_alignment count opponent_count =
     (if count = 4 then 1000
      else if count = 3 \<and> opponent_count = 0 then 50
      else if count = 2 \<and> opponent_count = 0 then 10
      else if count = 3 \<and> opponent_count = 1 then 5
      else if count = 2 \<and> opponent_count = 1 then 1
      else 0)"

text \<open>\<^verbatim>\<open>sum(1 for cell in line if cell == who)\<close>.\<close>

definition count_cells :: "int \<Rightarrow> cell list \<Rightarrow> int" where
  "count_cells who line = sum_list (map (\<lambda>cell. 1) (filter (\<lambda>cell. cell = Piece who) line))"

text \<open>
  The \<^verbatim>\<open>for line in state.get_lines()\<close> loop, with the running \<^verbatim>\<open>score\<close> as
  accumulator.
\<close>

fun score_lines :: "int \<Rightarrow> int \<Rightarrow> cell list list \<Rightarrow> int \<Rightarrow> int" where
  "score_lines player_id opponent_id [] score = score"
| "score_lines player_id opponent_id (line # rest) score =
     (let player_count = count_cells player_id line;
          opponent_count = count_cells opponent_id line
      in if player_count > 0 \<and> opponent_count = 0
         then score_lines player_id opponent_id rest
                (score + score_alignment player_count opponent_count)
         else if opponent_count > 0 \<and> player_count = 0
         then score_lines player_id opponent_id rest
                (score - score_alignment opponent_count player_count)
         else score_lines player_id opponent_id rest score)"

text \<open>
  The evaluator: the guard evaluates \<^verbatim>\<open>connect_four.Connect4State\<close> first, and an
  exception of that expression leaves the function at once. Past the guard, a state
  without the accessor \<^verbatim>\<open>get_lines\<close> would raise \<^verbatim>\<open>AttributeError\<close> at the loop.
\<close>

definition connect_four :: "game_state \<Rightarrow> int \<Rightarrow> error + int" where
  "connect_four state player_id =
     (case global_attribute ''connect_four'' ''Connect4State'' of
        Inl e \<Rightarrow> Inl e
      | Inr cls \<Rightarrow>
          if \<not> isinstance state cls then Inl incompatible
          else (case state of
                  Connect4 c \<Rightarrow>
                    (let score = 0;
                         opponent_id = 1 - player_id
                     in Inr (score_lines player_id opponent_id (get_lines c) score))
                | _ \<Rightarrow> Inl (AttributeError ''get_lines'')))"

subsection \<open>The calls the evaluator makes\<close>

text \<open>
  To speak about what an evaluation consults and calls, the same code is run once more
  with a log: one event per accessor call on the state and per call of
  \<^verbatim>\<open>score_alignment\<close>, in program order.
\<close>

datatype event =
    GetGoalPosition int
  | GetBallPosition
  | GetPossession
  | GetLines
  | ScoreAlignment int int

fun score_lines_log :: "int \<Rightarrow> int \<Rightarrow> cell list list \<Rightarrow> int \<Rightarrow> event list \<times> int" where
  "score_lines_log player_id opponent_id [] score = ([], score)"
| "score_lines_log player_id opponent_id (line # rest) score =
     (let player_count = count_cells player_id line;
          opponent_count = count_cells opponent_id line
      in if player_count > 0 \<and> opponent_count = 0
         then (let (log, r) = score_lines_log player_id opponent_id rest
                                (score + score_alignment player_count opponent_count)
               in (ScoreAlignment player_count opponent_count # log, r))
         else if opponent_count > 0 \<and> player_count = 0
         then (let (log, r) = score_lines_log player_id opponent_id rest
                                (score - score_alignment opponent_count player_count)
               in (ScoreAlignment opponent_count player_count # log, r))
         else score_lines_log player_id opponent_id rest score)"

definition connect_four_log :: "game_state \<Rightarrow> int \<Rightarrow> event list \<times> (error + int)" where
  "connect_four_log state player_id =
     (case global_attribute ''connect_four'' ''Connect4State'' of
        Inl e \<Rightarrow> ([], Inl e)
      | Inr cls \<Rightarrow>
          if \<not> isinstance state cls then ([], Inl incompatible)
          else (case state of
                  Connect4 c \<Rightarrow>
                    (let score = 0;
                         opponent_id = 1 - player_id;
                         (log, r) = score_lines_log player_id opponent_id (get_lines c) score
                     in (GetLines # log, Inr r))
                | _ \<Rightarrow> ([], Inl (AttributeError ''get_lines''))))"

section \<open>Python floats\<close>

text \<open>
  \<^verbatim>\<open>math.sqrt\<close> returns a Python float, an IEEE 754 binary64 number, and from there on
  the soccer score is computed in floats: every operation takes the exact result and
  rounds it to the nearest binary64 number, ties to the even significand. A finite float
  is represented by the rational number it denotes.

  \<open>pow2 e\<close> is \<open>2\<^sup>e\<close>, and \<open>ilog2 x\<close>, for a positive \<open>x\<close>, is the exponent
  \<open>e\<close> with \<open>2\<^sup>e \<le> x < 2\<^sup>e\<^sup>+\<^sup>1\<close> (lemma \<open>ilog2_bounds\<close>).
\<close>

definition pow2 :: "int \<Rightarrow> rat" where
  "pow2 e = (if 0 \<le> e then 2 ^ nat e else 1 / 2 ^ nat (- e))"

definition ilog2 :: "rat \<Rightarrow> int" where
  "ilog2 x = (if 1 \<le> x then bitlen \<lfloor>x\<rfloor> - 1 else - bitlen (\<lceil>1 / x\<rceil> - 1))"

definition round_half_even :: "rat \<Rightarrow> int" where
  "round_half_even x =
     (let f = \<lfloor>x\<rfloor>; r = x - of_int f
      in if r < 1 / 2 then f
         else if 1 / 2 < r then f + 1
         else if even f then f else f + 1)"

text \<open>
  Rounding to binary64: 53 significant bits, so the spacing of the floats around \<open>x\<close>
  is \<open>2\<^sup>e\<^sup>-\<^sup>5\<^sup>2\<close> for the exponent \<open>e\<close> of \<open>x\<close>, and \<open>2\<^sup>-\<^sup>1\<^sup>0\<^sup>7\<^sup>4\<close> in the subnormal
  range. Results of magnitude \<open>2\<^sup>1\<^sup>0\<^sup>2\<^sup>4\<close> and more, which the hardware turns into an
  infinity, do not arise in the evaluator (lemma \<open>soccer_score_finite\<close>).
\<close>

definition round_double :: "rat \<Rightarrow> rat" where
  "round_double x =
     (if x = 0 then 0
      else let e = max (ilog2 \<bar>x\<bar>) (- 1022);
               ulp = pow2 (e - 52)
           in of_int (round_half_even (x / ulp)) * ulp)"

definition float_add :: "rat \<Rightarrow> rat \<Rightarrow> rat" where
  "float_add a b = round_double (a + b)"

definition float_sub :: "rat \<Rightarrow> rat \<Rightarrow> rat" where
  "float_sub a b = round_double (a - b)"

definition float_mul :: "rat \<Rightarrow> rat \<Rightarrow> rat" where
  "float_mul a b = round_double (a * b)"

text \<open>
  The integer square root, one bit at a time from the top: \<open>isqrt n\<close> is the \<open>r\<close> with
  \<open>r\<^sup>2 \<le> n < (r + 1)\<^sup>2\<close> (lemma \<open>isqrt_bounds\<close>).
\<close>

fun isqrt_bits :: "nat \<Rightarrow> int \<Rightarrow> int \<Rightarrow> int" where
  "isqrt_bits 0 n r = r"
| "isqrt_bits (Suc k) n r = (let c = r + 2 ^ k in isqrt_bits k n (if c * c \<le> n then c else r))"

definition isqrt :: "int \<Rightarrow> int" where
  "isqrt n = isqrt_bits (nat (bitlen n)) n 0"

text \<open>
  The square root of a float, correctly rounded as IEEE 754 requires of it (lemma
  \<open>sqrt_double_nearest\<close>). The result has the exponent \<open>e\<close>, half the exponent of
  the argument; its significand is the integer nearest to the square root of the argument
  scaled by \<open>ulp\<^sup>2\<close>: the integer square root \<open>m\<close>, or \<open>m + 1\<close> when the scaled
  argument lies above the square of \<open>m + 1/2\<close>.
\<close>

definition sqrt_significand :: "rat \<Rightarrow> int" where
  "sqrt_significand y =
     (let m = isqrt \<lfloor>y\<rfloor>;
          h = (of_int m + 1 / 2) * (of_int m + 1 / 2)
      in if y < h then m
         else if h < y then m + 1
         else if even m then m else m + 1)"

definition sqrt_double :: "rat \<Rightarrow> rat" where
  "sqrt_double x =
     (if x \<le> 0 then 0
      else let e = ilog2 x div 2;
               ulp = pow2 (e - 52)
           in of_int (sqrt_significand (x / (ulp * ulp))) * ulp)"

text \<open>
  \<^verbatim>\<open>float(n)\<close> for a Python integer, which \<^verbatim>\<open>math.sqrt\<close> applies to its argument:
  the nearest float, and \<^verbatim>\<open>OverflowError\<close> when that is beyond the largest one.
\<close>

definition python_float :: "int \<Rightarrow> error + rat" where
  "python_float n =
     (let r = round_double (of_int n)
      in if pow2 1024 \<le> \<bar>r\<bar> then Inl (OverflowError ''int too large to convert to float'')
         else Inr r)"

definition math_sqrt :: "int \<Rightarrow> error + rat" where
  "math_sqrt n =
     (case python_float n of
        Inl e \<Rightarrow> Inl e
      | Inr x \<Rightarrow> if x < 0 then Inl (ValueError ''math domain error'') else Inr (sqrt_double x))"

section \<open>The soccer evaluator\<close>

text \<open>
  The squared differences and their sum are exact integer arithmetic; the square root
  makes a float of the sum, and the integer constants 5, 1000 and \<open>\<plusminus>50\<close> become the
  floats of the same value when they meet one. The augmented assignment
  \<^verbatim>\<open>score += goal_reward - distance_penalty * distance_to_goal\<close> evaluates its right-hand
  side first and adds it to \<^verbatim>\<open>score\<close> last.
\<close>

definition soccer :: "game_state \<Rightarrow> int \<Rightarrow> error + rat" where
  "soccer state player_id =
     (case global_attribute ''discrete_soccer'' ''SoccerState'' of
        Inl e \<Rightarrow> Inl e
      | Inr cls \<Rightarrow>
          if \<not> isinstance state cls then Inl incompatible
          else (case state of
                  Soccer s \<Rightarrow>
                    (let goal_reward = 1000;
                         possession_bonus = 50;
                         distance_penalty = 5;
                         player_goal = get_goal_position s player_id;
                         opponent_goal = get_goal_position s (1 - player_id);
                         ball_position = get_ball_position s;
                         has_possession = (get_possession s = Some player_id)
                     in case math_sqrt ((fst ball_position - fst opponent_goal)\<^sup>2 +
                                        (snd ball_position - snd opponent_goal)\<^sup>2) of
                          Inl e \<Rightarrow> Inl e
                        | Inr distance_to_goal \<Rightarrow>
                            (let score = (if has_possession then possession_bonus
                                          else - possession_bonus)
                             in Inr (float_add score
                                       (float_sub goal_reward
                                          (float_mul distance_penalty distance_to_goal)))))
                | _ \<Rightarrow> Inl (AttributeError ''get_goal_position'')))"

definition soccer_log :: "game_state \<Rightarrow> int \<Rightarrow> event list \<times> (error + rat)" where
  "soccer_log state player_id =
     (case global_attribute ''discrete_soccer'' ''SoccerState'' of
        Inl e \<Rightarrow> ([], Inl e)
      | Inr cls \<Rightarrow>
          if \<not> isinstance state cls then ([], Inl incompatible)
          else (case state of
                  Soccer s \<Rightarrow>
                    ([GetGoalPosition player_id, GetGoalPosition (1 - player_id),
                      GetBallPosition, GetPossession],
                     soccer state player_id)
                | _ \<Rightarrow> ([], Inl (AttributeError ''get_goal_position''))))"

text \<open>
  The Euclidean distance between two grid positions as a real number, the quantity that
  the evaluator computes in floats; the properties of the score are stated against it.
\<close>

definition euclidean_distance :: "int \<times> int \<Rightarrow> int \<times> int \<Rightarrow> real" where
  "euclidean_distance a b = sqrt (of_int ((fst a - fst b)\<^sup>2 + (snd a - snd b)\<^sup>2))"

section \<open>Properties of the connect-four evaluator\<close>

lemma score_lines_log_snd:
  "snd (score_lines_log p q ls s) = score_lines p q ls s"
  by (induction ls arbitrary: s) (simp_all add: Let_def split_beta)

text \<open>
  What the two guards find: \<^verbatim>\<open>discrete_soccer\<close> is still the module and has the class;
  \<^verbatim>\<open>connect_four\<close> is the evaluator function by then and has no attribute
  \<^verbatim>\<open>Connect4State\<close>. So every call of the connect-four evaluator raises
  \<^verbatim>\<open>AttributeError\<close> at line 58, before \<^verbatim>\<open>isinstance\<close> is called and before the state is
  consulted.
\<close>

lemma soccer_guard_class:
  "global_attribute ''discrete_soccer'' ''SoccerState'' = Inr SoccerStateClass"
  by (simp add: global_attribute_def module_globals_def)

lemma connect_four_guard_raises:
  "global_attribute ''connect_four'' ''Connect4State'' = Inl (AttributeError ''Connect4State'')"
  by (simp add: global_attribute_def module_globals_def)

lemma connect_four_raises:
  "connect_four state p = Inl (AttributeError ''Connect4State'')"
  by (simp add: connect_four_def connect_four_guard_raises)

lemma connect_four_log_raises:
  "connect_four_log state p = ([], Inl (AttributeError ''Connect4State''))"
  by (simp add: connect_four_log_def connect_four_guard_raises)

lemma connect_four_log_snd:
  "snd (connect_four_log state p) = connect_four state p"
  by (simp add: connect_four_log_raises connect_four_raises)

lemma count_cells_length:
  "count_cells who line = int (length (filter (\<lambda>cell. cell = Piece who) line))"
  unfolding count_cells_def by (induction line) simp_all

lemma count_cells_nonneg: "0 \<le> count_cells who line"
  by (simp add: count_cells_length)

lemma count_cells_zero_iff: "count_cells who line = 0 \<longleftrightarrow> Piece who \<notin> set line"
  by (auto simp: count_cells_length filter_empty_conv)

lemma count_cells_pos_iff: "0 < count_cells who line \<longleftrightarrow> Piece who \<in> set line"
  using count_cells_zero_iff [of who line] count_cells_nonneg [of who line] by linarith

lemma count_cells_replicate_same: "count_cells who (replicate n (Piece who)) = int n"
  by (simp add: count_cells_length)

lemma score_lines_append:
  "score_lines p q (xs @ ys) s = score_lines p q ys (score_lines p q xs s)"
  by (induction xs arbitrary: s) (simp_all add: Let_def)

lemma score_lines_empty_lines:
  "\<forall>l \<in> set ls. \<forall>c \<in> set l. c = Empty \<Longrightarrow> score_lines p q ls s = s"
proof (induction ls arbitrary: s)
  case Nil
  show ?case by simp
next
  case (Cons l ls)
  have "Piece p \<notin> set l" "Piece q \<notin> set l"
    using Cons.prems by auto
  then have "count_cells p l = 0" "count_cells q l = 0"
    by (simp_all add: count_cells_zero_iff)
  then show ?case
    using Cons by simp
qed

lemma score_lines_mixed_line:
  assumes "Piece p \<in> set l" and "Piece q \<in> set l"
  shows "score_lines p q (l # ls) s = score_lines p q ls s"
proof -
  have "0 < count_cells p l" "0 < count_cells q l"
    using assms by (simp_all add: count_cells_pos_iff)
  then show ?thesis by (simp add: Let_def)
qed

lemma score_lines_swap:
  "score_lines q p ls (- s) = - score_lines p q ls s"
proof (induction ls arbitrary: s)
  case Nil
  show ?case by simp
next
  case (Cons l ls)
  have nn: "0 \<le> count_cells p l" "0 \<le> count_cells q l"
    by (rule count_cells_nonneg)+
  consider (mine) "0 < count_cells p l" "count_cells q l = 0"
    | (theirs) "0 < count_cells q l" "count_cells p l = 0"
    | (neither) "\<not> (0 < count_cells p l \<and> count_cells q l = 0)"
        "\<not> (0 < count_cells q l \<and> count_cells p l = 0)"
    by blast
  then show ?case
  proof cases
    case mine
    then show ?thesis
      using Cons.IH [of "s + score_alignment (count_cells p l) 0"] by (simp add: Let_def)
  next
    case theirs
    then show ?thesis
      using Cons.IH [of "s - score_alignment (count_cells q l) 0"] by (simp add: Let_def)
  next
    case neither
    then have "score_lines p q (l # ls) s = score_lines p q ls s"
      and "score_lines q p (l # ls) (- s) = score_lines q p ls (- s)"
      by (auto simp: Let_def)
    then show ?thesis
      using Cons.IH [of s] by simp
  qed
qed

lemma score_lines_log_calls:
  "ScoreAlignment c o' \<in> set (fst (score_lines_log p q ls s)) \<Longrightarrow> o' = 0"
  by (induction ls arbitrary: s) (auto simp: Let_def split_beta split: if_splits)

text \<open>
  The loop of lines 86 to 94 on its own, as it would run past the guard: a line of four
  cells of the opponent among empty lines gives \<open>-1000\<close>, and a line with pieces of both
  players adds nothing.
\<close>

lemma score_lines_opponent_four:
  assumes "\<forall>l \<in> set before. \<forall>c \<in> set l. c = Empty"
    and "\<forall>l \<in> set after. \<forall>c \<in> set l. c = Empty"
  shows "score_lines p (1 - p)
           (before @ [[Piece (1 - p), Piece (1 - p), Piece (1 - p), Piece (1 - p)]] @ after) 0
         = - 1000"
proof -
  let ?four = "[Piece (1 - p), Piece (1 - p), Piece (1 - p), Piece (1 - p)]"
  have "?four = replicate 4 (Piece (1 - p))"
    by (simp add: numeral_eq_Suc)
  then have theirs: "count_cells (1 - p) ?four = 4"
    by (simp only: count_cells_replicate_same)
  have "1 - p \<noteq> p"
    by presburger
  then have "Piece p \<notin> set ?four"
    by auto
  then have mine: "count_cells p ?four = 0"
    unfolding count_cells_zero_iff .
  have "score_lines p (1 - p) (?four # after) 0 = score_lines p (1 - p) after (- 1000)"
    using theirs mine by (simp add: Let_def score_alignment_def)
  also have "\<dots> = - 1000"
    by (rule score_lines_empty_lines [OF assms(2)])
  finally show ?thesis
    by (simp add: score_lines_append score_lines_empty_lines [OF assms(1)])
qed

lemma score_lines_mixed_line_neutral:
  assumes "Piece p \<in> set line" and "Piece (1 - p) \<in> set line"
  shows "score_lines p (1 - p) (before @ [line] @ after) s
         = score_lines p (1 - p) (before @ after) s"
  by (simp add: score_lines_append score_lines_mixed_line [OF assms] del: score_lines.simps)


section \<open>Claims about the connect-four evaluator\<close>

text \<open>
  Claim C2. The per-line scoring function \<^verbatim>\<open>score_alignment(count, opponent_count)\<close>
  returns 1000 when the count is 4, whatever the opponent count; 50 for a count of 3 and
  10 for a count of 2 when the opponent count is 0; 5 for a count of 3 and 1 for a count
  of 2 when the opponent count is 1; and 0 in every other case.
\<close>

theorem score_alignment_table:
  "(count = 4 \<longrightarrow> score_alignment count opponent_count = 1000) \<and>
   (count = 3 \<and> opponent_count = 0 \<longrightarrow> score_alignment count opponent_count = 50) \<and>
   (count = 2 \<and> opponent_count = 0 \<longrightarrow> score_alignment count opponent_count = 10) \<and>
   (count = 3 \<and> opponent_count = 1 \<longrightarrow> score_alignment count opponent_count = 5) \<and>
   (count = 2 \<and> opponent_count = 1 \<longrightarrow> score_alignment count opponent_count = 1) \<and>
   (count \<noteq> 4 \<and> \<not> (count = 3 \<and> opponent_count = 0) \<and> \<not> (count = 2 \<and> opponent_count = 0) \<and>
    \<not> (count = 3 \<and> opponent_count = 1) \<and> \<not> (count = 2 \<and> opponent_count = 1)
      \<longrightarrow> score_alignment count opponent_count = 0)"
  by (simp add: score_alignment_def)

theorem score_alignment_table_witness:
  "score_alignment 4 7 = 1000 \<and> score_alignment 3 0 = 50 \<and> score_alignment 2 0 = 10 \<and>
   score_alignment 3 1 = 5 \<and> score_alignment 2 1 = 1 \<and> score_alignment 1 0 = 0 \<and>
   score_alignment 3 2 = 0"
  using score_alignment_table [of 4 7] score_alignment_table [of 3 0]
    score_alignment_table [of 2 0] score_alignment_table [of 3 1]
    score_alignment_table [of 2 1] score_alignment_table [of 1 0]
    score_alignment_table [of 3 2]
  by simp

text \<open>
  Claim C3 says that a connect-four state in which one line is four cells of the opponent
  \<open>1 - p\<close> and every other line is entirely empty evaluates to \<open>-1000\<close> for the player
  \<open>p\<close>. On such a state the call returns no score: it raises \<^verbatim>\<open>AttributeError\<close> at the
  guard, as every call of the evaluator does. The loop, which the call does not reach,
  gives \<open>-1000\<close> on these lines.
\<close>

theorem connect_four_opponent_four_raises:
  "connect_four
     (Connect4 \<lparr>get_lines = [[Empty, Empty, Empty, Empty], [Piece 1, Piece 1, Piece 1, Piece 1],
                              [Empty, Empty, Empty, Empty]]\<rparr>) 0
     = Inl (AttributeError ''Connect4State'') \<and>
   score_lines 0 (1 - 0)
     [[Empty, Empty, Empty, Empty], [Piece 1, Piece 1, Piece 1, Piece 1],
      [Empty, Empty, Empty, Empty]] 0 = - 1000"
  by (simp add: connect_four_raises count_cells_def score_alignment_def)

text \<open>
  Claim C4 says that a line holding at least one piece of the player \<open>p\<close> and at least
  one piece of the opponent \<open>1 - p\<close> adds exactly 0 to the total that the evaluator
  returns. The evaluator returns no total, with such a line or without it: both calls
  raise \<^verbatim>\<open>AttributeError\<close> at the guard. The loop, which the calls do not reach, gives 50
  with the mixed line and without it.
\<close>

theorem connect_four_mixed_line_raises:
  "connect_four
     (Connect4 \<lparr>get_lines = [[Piece 0, Piece 0, Piece 0, Empty], [Empty, Piece 1, Piece 0, Empty]]\<rparr>) 0
     = Inl (AttributeError ''Connect4State'') \<and>
   connect_four (Connect4 \<lparr>get_lines = [[Piece 0, Piece 0, Piece 0, Empty]]\<rparr>) 0
     = Inl (AttributeError ''Connect4State'') \<and>
   score_lines 0 (1 - 0) [[Piece 0, Piece 0, Piece 0, Empty], [Empty, Piece 1, Piece 0, Empty]] 0
     = 50 \<and>
   score_lines 0 (1 - 0) [[Piece 0, Piece 0, Piece 0, Empty]] 0 = 50"
  by (simp add: connect_four_raises count_cells_def score_alignment_def)

text \<open>
  Claim C9. Every call of \<^verbatim>\<open>score_alignment\<close> that an evaluation makes passes 0 as the
  opponent count, so no call takes the branches for a line blocked by one piece, the ones
  that return 5 and 1. An evaluation makes no call at all, since it ends at the guard:
  its log is empty, and the logged run returns what the evaluator returns. The loop
  itself, on whatever lines and with whatever score it starts, makes only calls with 0
  as the second argument: the logged loop computes the score of the loop, and every call
  in its log has the opponent count 0.
\<close>

theorem connect_four_calls_unblocked:
  "fst (connect_four_log state p) = [] \<and>
   snd (connect_four_log state p) = connect_four state p \<and>
   (\<forall>lines score.
      snd (score_lines_log p (1 - p) lines score) = score_lines p (1 - p) lines score \<and>
      (\<forall>count opponent_count.
         ScoreAlignment count opponent_count
           \<in> set (fst (score_lines_log p (1 - p) lines score)) \<longrightarrow>
         opponent_count = 0 \<and>
         \<not> (count = 3 \<and> opponent_count = 1) \<and> \<not> (count = 2 \<and> opponent_count = 1) \<and>
         score_alignment count opponent_count \<noteq> 5 \<and>
         score_alignment count opponent_count \<noteq> 1))"
proof (intro conjI allI impI)
  show "fst (connect_four_log state p) = []"
    by (simp add: connect_four_log_raises)
  show "snd (connect_four_log state p) = connect_four state p"
    by (rule connect_four_log_snd)
next
  fix lines score
  show "snd (score_lines_log p (1 - p) lines score) = score_lines p (1 - p) lines score"
    by (rule score_lines_log_snd)
next
  fix lines score count opponent_count
  assume "ScoreAlignment count opponent_count
    \<in> set (fst (score_lines_log p (1 - p) lines score))"
  then have zero: "opponent_count = 0"
    by (rule score_lines_log_calls)
  show "opponent_count = 0"
    by (rule zero)
  show "\<not> (count = 3 \<and> opponent_count = 1)" "\<not> (count = 2 \<and> opponent_count = 1)"
    using zero by simp_all
  show "score_alignment count opponent_count \<noteq> 5" "score_alignment count opponent_count \<noteq> 1"
    using zero by (simp_all add: score_alignment_def)
qed

theorem connect_four_calls_unblocked_witness:
  "fst (connect_four_log
     (Connect4 \<lparr>get_lines = [[Piece 0, Piece 0, Piece 0, Empty], [Piece 1, Piece 0, Piece 0, Piece 0],
                              [Empty, Piece 1, Piece 1, Empty]]\<rparr>) 0) = [] \<and>
   fst (score_lines_log 0 (1 - 0)
     [[Piece 0, Piece 0, Piece 0, Empty], [Piece 1, Piece 0, Piece 0, Piece 0],
      [Empty, Piece 1, Piece 1, Empty]] 0)
     = [ScoreAlignment 3 0, ScoreAlignment 2 0] \<and>
   ScoreAlignment 3 0 \<in> set (fst (score_lines_log 0 (1 - 0)
     [[Piece 0, Piece 0, Piece 0, Empty], [Piece 1, Piece 0, Piece 0, Piece 0],
      [Empty, Piece 1, Piece 1, Empty]] 0)) \<and>
   score_alignment 3 0 \<noteq> 5 \<and> score_alignment 3 0 \<noteq> 1"
proof -
  let ?lines = "[[Piece 0, Piece 0, Piece 0, Empty], [Piece 1, Piece 0, Piece 0, Piece 0],
                 [Empty, Piece 1, Piece 1, Empty]]"
  have log: "fst (score_lines_log 0 (1 - 0) ?lines 0) = [ScoreAlignment 3 0, ScoreAlignment 2 0]"
    by (simp add: count_cells_def)
  then have mem: "ScoreAlignment 3 0 \<in> set (fst (score_lines_log 0 (1 - 0) ?lines 0))"
    by simp
  note c = connect_four_calls_unblocked [of "Connect4 \<lparr>get_lines = ?lines\<rparr>" 0]
  have "fst (connect_four_log (Connect4 \<lparr>get_lines = ?lines\<rparr>) 0) = []"
    using c by blast
  moreover have "score_alignment 3 0 \<noteq> 5 \<and> score_alignment 3 0 \<noteq> 1"
    using c mem by blast
  ultimately show ?thesis
    using log mem by blast
qed

text \<open>
  Claim C10 says that the connect-four evaluation is anti-symmetric in the perspective
  player: the score for \<open>1 - p\<close> is the negated score for \<open>p\<close>. The evaluator returns no
  score for either player: both calls raise \<^verbatim>\<open>AttributeError\<close> at the guard. The loop,
  which the calls do not reach, is anti-symmetric (lemma \<open>score_lines_swap\<close>): on these
  lines it gives 50 for player 0 and \<open>-50\<close> for player 1.
\<close>

theorem connect_four_antisymmetric_raises:
  "connect_four (Connect4 \<lparr>get_lines = [[Piece 0, Piece 0, Piece 0, Empty]]\<rparr>) 0
     = Inl (AttributeError ''Connect4State'') \<and>
   connect_four (Connect4 \<lparr>get_lines = [[Piece 0, Piece 0, Piece 0, Empty]]\<rparr>) (1 - 0)
     = Inl (AttributeError ''Connect4State'') \<and>
   score_lines 0 (1 - 0) [[Piece 0, Piece 0, Piece 0, Empty]] 0 = 50 \<and>
   score_lines (1 - 0) (1 - (1 - 0)) [[Piece 0, Piece 0, Piece 0, Empty]] 0 = - 50"
  by (simp add: connect_four_raises count_cells_def score_alignment_def)

section \<open>Properties of the float arithmetic\<close>

subsection \<open>Powers of two and the exponent of a number\<close>

lemma pow2_powi: "pow2 e = 2 powi e"
  by (simp add: pow2_def power_int_def power_inverse inverse_eq_divide power_one_over)

lemma pow2_pos: "0 < pow2 e"
  by (simp add: pow2_powi)

lemma pow2_add: "pow2 (a + b) = pow2 a * pow2 b"
  by (simp add: pow2_powi power_int_add)

lemma pow2_Suc: "pow2 (e + 1) = 2 * pow2 e"
  by (simp add: pow2_powi power_int_add)

lemma pow2_mono: "a \<le> b \<Longrightarrow> pow2 a \<le> pow2 b"
  by (simp add: pow2_powi power_int_increasing)

lemma pow2_strict_mono: "a < b \<Longrightarrow> pow2 a < pow2 b"
  by (simp add: pow2_powi power_int_strict_increasing)

lemma pow2_less_cancel: "pow2 a < pow2 b \<Longrightarrow> a < b"
  using pow2_mono [of b a] by (cases "a < b") auto

lemma pow2_nat: "0 \<le> e \<Longrightarrow> pow2 e = of_int (2 ^ nat e)"
  by (simp add: pow2_def)

lemma pow2_neg: "0 \<le> j \<Longrightarrow> pow2 (- j) = 1 / 2 ^ nat j"
  by (auto simp: pow2_def)

lemma ilog2_bounds:
  assumes "0 < x"
  shows "pow2 (ilog2 x) \<le> x" and "x < pow2 (ilog2 x + 1)"
proof -
  have "pow2 (ilog2 x) \<le> x \<and> x < pow2 (ilog2 x + 1)"
  proof (cases "1 \<le> x")
    case True
    define f where "f = \<lfloor>x\<rfloor>"
    have f: "0 < f" "of_int f \<le> x" "x < of_int (f + 1)"
      using True unfolding f_def by linarith+
    from bitlen_bounds [OF f(1)]
    have b: "2 ^ nat (bitlen f - 1) \<le> f" "f < 2 ^ nat (bitlen f)"
      by simp_all
    have pos: "0 < bitlen f"
      using f(1) bitlen_eq_zero_iff [of f] bitlen_nonneg [of f] by linarith
    have e: "ilog2 x = bitlen f - 1"
      using True by (simp add: ilog2_def f_def)
    have "pow2 (bitlen f - 1) = of_int (2 ^ nat (bitlen f - 1))"
      using pos by (intro pow2_nat) simp
    also have "\<dots> \<le> of_int f"
      using b(1) by (simp only: of_int_le_iff)
    finally have lo: "pow2 (ilog2 x) \<le> x"
      using f(2) e by simp
    have "f + 1 \<le> 2 ^ nat (bitlen f)"
      using b(2) by simp
    then have "(of_int (f + 1) :: rat) \<le> of_int (2 ^ nat (bitlen f))"
      by (simp only: of_int_le_iff)
    also have "\<dots> = pow2 (bitlen f)"
      using pos by (subst pow2_nat) simp_all
    finally have "x < pow2 (ilog2 x + 1)"
      using f(3) e by simp
    with lo show ?thesis ..
  next
    case False
    define c where "c = \<lceil>1 / x\<rceil>"
    define k where "k = bitlen (c - 1)"
    have x1: "1 < 1 / x"
      using False assms by simp
    have c: "1 / x \<le> of_int c" "of_int (c - 1) < 1 / x"
      unfolding c_def by linarith+
    have "1 < (of_int c :: rat)"
      using x1 c(1) by linarith
    then have c1: "0 < c - 1"
      by simp
    from bitlen_bounds [OF c1]
    have b: "2 ^ nat (k - 1) \<le> c - 1" "c - 1 < 2 ^ nat k"
      by (simp_all add: k_def)
    have pos: "0 < k"
      using c1 bitlen_eq_zero_iff [of "c - 1"] bitlen_nonneg [of "c - 1"]
      unfolding k_def by linarith
    have e: "ilog2 x = - k"
      using False by (simp add: ilog2_def c_def k_def)
    have "c \<le> 2 ^ nat k"
      using b(2) by simp
    then have "(of_int c :: rat) \<le> of_int (2 ^ nat k)"
      by (simp only: of_int_le_iff)
    then have "(of_int c :: rat) \<le> 2 ^ nat k"
      by simp
    then have "1 / x \<le> 2 ^ nat k"
      using c(1) by linarith
    then have "1 \<le> 2 ^ nat k * x"
      using assms by (simp add: field_simps)
    then have lo: "pow2 (- k) \<le> x"
      using pos assms by (simp add: pow2_neg field_simps)
    have "(of_int (2 ^ nat (k - 1)) :: rat) \<le> of_int (c - 1)"
      using b(1) by (simp only: of_int_le_iff)
    then have "(2 ^ nat (k - 1) :: rat) \<le> of_int (c - 1)"
      by simp
    then have "2 ^ nat (k - 1) < 1 / x"
      using c(2) by linarith
    then have "x < 1 / 2 ^ nat (k - 1)"
      using assms by (simp add: field_simps)
    also have "1 / 2 ^ nat (k - 1) = pow2 (- (k - 1))"
      using pos by (intro pow2_neg [symmetric]) simp
    finally have "x < pow2 (- (k - 1))" .
    with lo e show ?thesis by simp
  qed
  then show "pow2 (ilog2 x) \<le> x" and "x < pow2 (ilog2 x + 1)"
    by simp_all
qed

lemma ilog2_unique:
  assumes "pow2 e \<le> x" and "x < pow2 (e + 1)"
  shows "ilog2 x = e"
proof -
  have pos: "0 < x"
    using assms(1) pow2_pos [of e] by linarith
  have "pow2 (ilog2 x) < pow2 (e + 1)"
    using ilog2_bounds(1) [OF pos] assms(2) by linarith
  then have a: "ilog2 x < e + 1"
    by (rule pow2_less_cancel)
  have "pow2 e < pow2 (ilog2 x + 1)"
    using ilog2_bounds(2) [OF pos] assms(1) by linarith
  then have "e < ilog2 x + 1"
    by (rule pow2_less_cancel)
  with a show ?thesis by linarith
qed

lemma ilog2_mono:
  assumes "0 < x" and "x \<le> y"
  shows "ilog2 x \<le> ilog2 y"
proof -
  have "pow2 (ilog2 x) < pow2 (ilog2 y + 1)"
    using ilog2_bounds(1) [OF assms(1)] ilog2_bounds(2) [of y] assms by linarith
  then have "ilog2 x < ilog2 y + 1"
    by (rule pow2_less_cancel)
  then show ?thesis by simp
qed

subsection \<open>Rounding to the nearest integer, ties to even\<close>

lemma round_half_even_error: "\<bar>of_int (round_half_even x) - x\<bar> \<le> 1 / 2"
proof -
  have "of_int \<lfloor>x\<rfloor> \<le> x" "x < of_int \<lfloor>x\<rfloor> + 1"
    by linarith+
  then show ?thesis
    unfolding round_half_even_def Let_def by (simp add: abs_le_iff)
qed

lemma round_half_even_of_int: "round_half_even (of_int k) = k"
  by (simp add: round_half_even_def)

lemma round_half_even_mono:
  assumes "x \<le> y"
  shows "round_half_even x \<le> round_half_even y"
proof -
  have fl: "\<lfloor>x\<rfloor> \<le> \<lfloor>y\<rfloor>"
    using assms by (rule floor_mono)
  have bx: "round_half_even x \<le> \<lfloor>x\<rfloor> + 1" and by': "\<lfloor>y\<rfloor> \<le> round_half_even y"
    by (simp_all add: round_half_even_def Let_def)
  show ?thesis
  proof (cases "\<lfloor>x\<rfloor> < \<lfloor>y\<rfloor>")
    case True
    then show ?thesis using bx by' by linarith
  next
    case False
    then have eq: "\<lfloor>x\<rfloor> = \<lfloor>y\<rfloor>"
      using fl by simp
    then show ?thesis
      using assms by (auto simp: round_half_even_def Let_def)
  qed
qed

lemma round_half_even_minus: "round_half_even (- x) = - round_half_even x"
proof (cases "x = of_int \<lfloor>x\<rfloor>")
  case True
  have "round_half_even (of_int (- \<lfloor>x\<rfloor>)) = - round_half_even (of_int \<lfloor>x\<rfloor>)"
    by (simp only: round_half_even_of_int)
  with True show ?thesis by (metis of_int_minus)
next
  case False
  then have c: "\<lceil>x\<rceil> = \<lfloor>x\<rfloor> + 1"
    by (metis ceiling_altdef)
  have f: "\<lfloor>- x\<rfloor> = - \<lfloor>x\<rfloor> - 1"
    using c by (simp add: ceiling_def)
  show ?thesis
    unfolding round_half_even_def Let_def f
    by (auto simp: field_simps)
qed

lemma round_half_even_ge: "of_int a \<le> x \<Longrightarrow> a \<le> round_half_even x"
  using round_half_even_mono [of "of_int a" x] by (simp add: round_half_even_of_int)

lemma round_half_even_le: "x \<le> of_int b \<Longrightarrow> round_half_even x \<le> b"
  using round_half_even_mono [of x "of_int b"] by (simp add: round_half_even_of_int)

subsection \<open>Rounding to binary64: bounds, error and monotonicity\<close>

lemma pow2_diff: "pow2 (a - b) = pow2 a / pow2 b"
  using pow2_add [of "a - b" b] pow2_pos [of b] by (simp add: field_simps)

lemma pow2_split: "pow2 a = pow2 b * pow2 (a - b)"
  using pow2_add [of b "a - b"] by simp

lemma pow2_numeral: "pow2 (numeral n) = of_int (2 ^ numeral n)"
  by (simp add: pow2_def)

lemma round_double_minus: "round_double (- x) = - round_double x"
  by (simp add: round_double_def Let_def round_half_even_minus)

lemma round_double_pos_nonneg:
  assumes "0 < x"
  shows "0 \<le> round_double x"
proof -
  define u where "u = pow2 (max (ilog2 x) (- 1022) - 52)"
  have u: "0 < u" by (simp add: u_def pow2_pos)
  have "of_int 0 \<le> x / u" using assms u by simp
  then have "0 \<le> round_half_even (x / u)" by (rule round_half_even_ge)
  then have "0 \<le> of_int (round_half_even (x / u)) * u"
    using u by simp
  then show ?thesis
    using assms by (simp add: round_double_def Let_def u_def)
qed

lemma round_double_pos_upper:
  assumes "0 < x"
  shows "round_double x \<le> pow2 (max (ilog2 x) (- 1022) + 1)"
proof -
  define e where "e = max (ilog2 x) (- 1022)"
  define u where "u = pow2 (e - 52)"
  have u: "0 < u" by (simp add: u_def pow2_pos)
  have "x < pow2 (ilog2 x + 1)"
    by (rule ilog2_bounds(2) [OF assms])
  also have "\<dots> \<le> pow2 (e + 1)"
    by (rule pow2_mono) (simp add: e_def)
  also have "\<dots> = pow2 53 * u"
    using pow2_split [of "e + 1" 53] by (simp add: u_def)
  finally have "x / u \<le> pow2 53"
    using u by (simp add: field_simps)
  then have "x / u \<le> of_int (2 ^ 53)"
    by (simp only: pow2_numeral)
  then have "round_half_even (x / u) \<le> 2 ^ 53"
    by (rule round_half_even_le)
  then have "(of_int (round_half_even (x / u)) :: rat) \<le> of_int (2 ^ 53)"
    by (simp only: of_int_le_iff)
  then have "of_int (round_half_even (x / u)) * u \<le> pow2 53 * u"
    using u by (simp only: pow2_numeral mult_le_cancel_right_pos)
  also have "pow2 53 * u = pow2 (e + 1)"
    using pow2_split [of "e + 1" 53] by (simp add: u_def)
  finally show ?thesis
    using assms by (simp add: round_double_def Let_def u_def e_def)
qed

lemma round_double_pos_lower:
  assumes "0 < x" and "- 1022 \<le> ilog2 x"
  shows "pow2 (ilog2 x) \<le> round_double x"
proof -
  define e where "e = ilog2 x"
  define u where "u = pow2 (e - 52)"
  have u: "0 < u" by (simp add: u_def pow2_pos)
  have m: "max (ilog2 x) (- 1022) = e"
    using assms(2) by (simp add: e_def)
  have eu: "pow2 e = pow2 52 * u"
    unfolding u_def by (rule pow2_split)
  have rd: "round_double x = of_int (round_half_even (x / u)) * u"
    using assms(1) m by (simp add: round_double_def Let_def u_def)
  have "pow2 e \<le> x"
    unfolding e_def by (rule ilog2_bounds(1) [OF assms(1)])
  then have "pow2 52 \<le> x / u"
    using u by (simp add: eu field_simps)
  then have "of_int (2 ^ 52) \<le> x / u"
    by (simp only: pow2_numeral)
  then have "2 ^ 52 \<le> round_half_even (x / u)"
    by (rule round_half_even_ge)
  then have "(of_int (2 ^ 52) :: rat) \<le> of_int (round_half_even (x / u))"
    by (simp only: of_int_le_iff)
  then have "pow2 52 * u \<le> of_int (round_half_even (x / u)) * u"
    using u by (simp only: pow2_numeral mult_le_cancel_right_pos)
  then have "pow2 e \<le> round_double x"
    by (simp only: eu rd)
  then show ?thesis
    by (simp only: e_def)
qed

lemma round_double_error:
  assumes "x \<noteq> 0"
  shows "\<bar>round_double x - x\<bar> \<le> pow2 (max (ilog2 \<bar>x\<bar>) (- 1022) - 53)"
proof -
  define e where "e = max (ilog2 \<bar>x\<bar>) (- 1022)"
  define u where "u = pow2 (e - 52)"
  have u: "0 < u" by (simp add: u_def pow2_pos)
  have half: "pow2 (e - 53) = u / 2"
    using pow2_Suc [of "e - 53"] by (simp add: u_def)
  have "round_double x - x = (of_int (round_half_even (x / u)) - x / u) * u"
    using assms u by (simp add: round_double_def Let_def u_def e_def field_simps)
  then have "\<bar>round_double x - x\<bar> = \<bar>of_int (round_half_even (x / u)) - x / u\<bar> * u"
    using u by (simp add: abs_mult)
  also have "\<dots> \<le> (1 / 2) * u"
    using u round_half_even_error [of "x / u"] by (simp only: mult_le_cancel_right_pos)
  finally have "\<bar>round_double x - x\<bar> \<le> pow2 (e - 53)"
    by (simp add: half)
  then show ?thesis
    by (simp only: e_def)
qed

lemma round_double_mono_pos:
  assumes "0 < x" and "x \<le> y"
  shows "round_double x \<le> round_double y"
proof -
  define ex where "ex = max (ilog2 x) (- 1022)"
  define ey where "ey = max (ilog2 y) (- 1022)"
  have y: "0 < y" using assms by linarith
  have le: "ex \<le> ey"
    using ilog2_mono [OF assms] by (simp add: ex_def ey_def)
  show ?thesis
  proof (cases "ex = ey")
    case True
    define u where "u = pow2 (ex - 52)"
    have u: "0 < u" by (simp add: u_def pow2_pos)
    have "x / u \<le> y / u"
      using assms(2) u by (simp add: divide_right_mono)
    then have "round_half_even (x / u) \<le> round_half_even (y / u)"
      by (rule round_half_even_mono)
    then have "(of_int (round_half_even (x / u)) :: rat) \<le> of_int (round_half_even (y / u))"
      by (simp only: of_int_le_iff)
    then have "of_int (round_half_even (x / u)) * u \<le> of_int (round_half_even (y / u)) * u"
      using u by (simp only: mult_le_cancel_right_pos)
    then show ?thesis
      using assms(1) y True by (simp add: round_double_def Let_def u_def ex_def ey_def)
  next
    case False
    then have lt: "ex < ey" using le by simp
    then have un: "- 1022 \<le> ilog2 y" "ey = ilog2 y"
      by (auto simp: ex_def ey_def max_def split: if_splits)
    have "round_double x \<le> pow2 (ex + 1)"
      unfolding ex_def by (rule round_double_pos_upper [OF assms(1)])
    also have "\<dots> \<le> pow2 ey"
      using lt by (intro pow2_mono) simp
    also have "\<dots> \<le> round_double y"
      unfolding un(2) by (rule round_double_pos_lower [OF y un(1)])
    finally show ?thesis .
  qed
qed

lemma round_double_zero: "round_double 0 = 0"
  by (simp add: round_double_def)

lemma round_double_mono:
  assumes "x \<le> y"
  shows "round_double x \<le> round_double y"
proof -
  consider "0 < x" | "y < 0" | "x \<le> 0" "0 \<le> y"
    by linarith
  then show ?thesis
  proof cases
    case 1
    then show ?thesis using assms by (rule round_double_mono_pos)
  next
    case 2
    then have "round_double (- y) \<le> round_double (- x)"
      using assms by (intro round_double_mono_pos) simp_all
    then show ?thesis by (simp add: round_double_minus)
  next
    case 3
    have "round_double x \<le> 0"
    proof (cases "x = 0")
      case True then show ?thesis by (simp add: round_double_zero)
    next
      case False
      then have "0 \<le> round_double (- x)"
        using 3 by (intro round_double_pos_nonneg) simp
      then show ?thesis by (simp add: round_double_minus)
    qed
    moreover have "0 \<le> round_double y"
    proof (cases "y = 0")
      case True then show ?thesis by (simp add: round_double_zero)
    next
      case False
      then show ?thesis using 3 by (intro round_double_pos_nonneg) simp
    qed
    ultimately show ?thesis by linarith
  qed
qed

subsection \<open>The integer square root\<close>


lemma isqrt_bits_bounds:
  assumes "0 \<le> r" and "r * r \<le> n" and "n < (r + 2 ^ k) * (r + 2 ^ k)"
  shows "r \<le> isqrt_bits k n r \<and> isqrt_bits k n r * isqrt_bits k n r \<le> n \<and>
         n < (isqrt_bits k n r + 1) * (isqrt_bits k n r + 1)"
  using assms
proof (induction k arbitrary: r)
  case 0
  then show ?case by simp
next
  case (Suc k)
  define c where "c = r + 2 ^ k"
  show ?case
  proof (cases "c * c \<le> n")
    case True
    have "0 \<le> c" using Suc.prems(1) by (simp add: c_def)
    moreover have "r + 2 ^ Suc k = c + 2 ^ k"
      by (simp add: c_def)
    then have "n < (c + 2 ^ k) * (c + 2 ^ k)"
      using Suc.prems(3) by (simp only:)
    ultimately have ih: "c \<le> isqrt_bits k n c \<and> isqrt_bits k n c * isqrt_bits k n c \<le> n \<and>
         n < (isqrt_bits k n c + 1) * (isqrt_bits k n c + 1)"
      using True by (intro Suc.IH)
    have "r \<le> c" by (simp add: c_def)
    then have "r \<le> isqrt_bits k n c"
      using ih by linarith
    moreover have "isqrt_bits (Suc k) n r = isqrt_bits k n c"
      using True by (simp add: Let_def c_def)
    ultimately show ?thesis
      using ih by simp
  next
    case False
    then have "n < (r + 2 ^ k) * (r + 2 ^ k)"
      by (simp add: c_def)
    then have ih: "r \<le> isqrt_bits k n r \<and> isqrt_bits k n r * isqrt_bits k n r \<le> n \<and>
         n < (isqrt_bits k n r + 1) * (isqrt_bits k n r + 1)"
      using Suc.prems(1,2) by (intro Suc.IH)
    have "isqrt_bits (Suc k) n r = isqrt_bits k n r"
      using False by (simp add: Let_def c_def)
    then show ?thesis
      using ih by simp
  qed
qed

lemma isqrt_bounds:
  assumes "0 \<le> n"
  shows "0 \<le> isqrt n" and "isqrt n * isqrt n \<le> n" and "n < (isqrt n + 1) * (isqrt n + 1)"
proof -
  define k where "k = nat (bitlen n)"
  have "n < 2 ^ k"
  proof (cases "n = 0")
    case True then show ?thesis by simp
  next
    case False
    then have "0 < n" using assms by simp
    from bitlen_bounds [OF this] show ?thesis by (simp add: k_def)
  qed
  moreover have "(2::int) ^ k \<le> 2 ^ k * 2 ^ k"
    by (simp add: self_le_power)
  ultimately have "n < 2 ^ k * 2 ^ k"
    by (rule less_le_trans)
  then have "n < (0 + 2 ^ k) * (0 + 2 ^ k)"
    by simp
  with isqrt_bits_bounds [of 0 n k] assms
  show "0 \<le> isqrt n" and "isqrt n * isqrt n \<le> n" and "n < (isqrt n + 1) * (isqrt n + 1)"
    by (simp_all add: isqrt_def k_def)
qed

lemma square_less_imp_less:
  fixes a b :: int
  assumes "a * a < b * b" and "0 \<le> b"
  shows "a < b"
  using power2_less_imp_less [of a b] assms by (simp add: power2_eq_square)

lemma isqrt_unique:
  assumes "0 \<le> s" and "s * s \<le> n" and "n < (s + 1) * (s + 1)"
  shows "isqrt n = s"
proof -
  have n: "0 \<le> n"
    using assms(2) zero_le_square [of s] by linarith
  note b = isqrt_bounds [OF n]
  have "isqrt n * isqrt n < (s + 1) * (s + 1)"
    using b(2) assms(3) by (rule le_less_trans)
  then have "isqrt n < s + 1"
    by (rule square_less_imp_less) (use assms(1) in simp)
  moreover have "s * s < (isqrt n + 1) * (isqrt n + 1)"
    using assms(2) b(3) by (rule le_less_trans)
  then have "s < isqrt n + 1"
    by (rule square_less_imp_less) (use b(1) in simp)
  ultimately show ?thesis by linarith
qed

lemma isqrt_mono:
  assumes "0 \<le> a" and "a \<le> b"
  shows "isqrt a \<le> isqrt b"
proof -
  have b: "0 \<le> b" using assms by linarith
  have "isqrt a * isqrt a \<le> b"
    using isqrt_bounds(2) [OF assms(1)] assms(2) by (rule order_trans)
  then have "isqrt a * isqrt a < (isqrt b + 1) * (isqrt b + 1)"
    using isqrt_bounds(3) [OF b] by (rule le_less_trans)
  then have "isqrt a < isqrt b + 1"
    by (rule square_less_imp_less) (use isqrt_bounds(1) [OF b] in simp)
  then show ?thesis by simp
qed

subsection \<open>The correctly rounded square root\<close>

lemma sqrt_significand_bounds:
  "isqrt \<lfloor>y\<rfloor> \<le> sqrt_significand y" "sqrt_significand y \<le> isqrt \<lfloor>y\<rfloor> + 1"
  by (simp_all add: sqrt_significand_def Let_def)

lemma sqrt_significand_mono:
  assumes "0 \<le> x" and "x \<le> y"
  shows "sqrt_significand x \<le> sqrt_significand y"
proof -
  have fl: "0 \<le> \<lfloor>x\<rfloor>" "\<lfloor>x\<rfloor> \<le> \<lfloor>y\<rfloor>"
    using assms by (simp_all add: floor_mono)
  then have le: "isqrt \<lfloor>x\<rfloor> \<le> isqrt \<lfloor>y\<rfloor>"
    by (rule isqrt_mono)
  show ?thesis
  proof (cases "isqrt \<lfloor>x\<rfloor> < isqrt \<lfloor>y\<rfloor>")
    case True
    then show ?thesis
      using sqrt_significand_bounds(2) [of x] sqrt_significand_bounds(1) [of y] by linarith
  next
    case False
    then have "isqrt \<lfloor>x\<rfloor> = isqrt \<lfloor>y\<rfloor>"
      using le by simp
    then show ?thesis
      using assms(2) by (auto simp: sqrt_significand_def Let_def)
  qed
qed

lemma sqrt_significand_square:
  assumes "0 \<le> m"
  shows "sqrt_significand (of_int m * of_int m) = m"
proof -
  have fl: "\<lfloor>(of_int m * of_int m :: rat)\<rfloor> = m * m"
    by (simp flip: of_int_mult)
  have "m * m < (m + 1) * (m + 1)"
    using assms by (simp add: algebra_simps)
  then have sq: "isqrt (m * m) = m"
    using assms by (intro isqrt_unique) simp_all
  have "(of_int m * of_int m :: rat) < (of_int m + 1 / 2) * (of_int m + 1 / 2)"
    using assms by (simp add: algebra_simps)
  then show ?thesis
    by (simp add: sqrt_significand_def Let_def fl sq)
qed

lemma sqrt_significand_nearest:
  assumes "1 \<le> y"
  shows "(of_int (sqrt_significand y) - 1 / 2) * (of_int (sqrt_significand y) - 1 / 2) \<le> y"
    and "y \<le> (of_int (sqrt_significand y) + 1 / 2) * (of_int (sqrt_significand y) + 1 / 2)"
proof -
  define m where "m = isqrt \<lfloor>y\<rfloor>"
  have fl: "1 \<le> \<lfloor>y\<rfloor>" using assms by simp
  then have n: "0 \<le> \<lfloor>y\<rfloor>" by simp
  note b = isqrt_bounds [OF n, folded m_def]
  have m1: "1 \<le> m"
  proof (rule ccontr)
    assume "\<not> 1 \<le> m"
    then have "m = 0" using b(1) by simp
    then show False using b(3) fl by simp
  qed
  have lo: "(of_int (m * m) :: rat) \<le> y"
    using b(2) by (meson le_floor_iff)
  have "y < of_int (\<lfloor>y\<rfloor> + 1)"
    by linarith
  moreover have "\<lfloor>y\<rfloor> + 1 \<le> (m + 1) * (m + 1)"
    using b(3) by simp
  then have "(of_int (\<lfloor>y\<rfloor> + 1) :: rat) \<le> of_int ((m + 1) * (m + 1))"
    by (simp only: of_int_le_iff)
  ultimately have hi: "y < of_int ((m + 1) * (m + 1))"
    by linarith
  have mr: "(1::rat) \<le> of_int m"
    using m1 by simp
  have a: "(of_int m - 1 / 2) * (of_int m - 1 / 2) \<le> (of_int (m * m) :: rat)"
    using mr by (simp add: algebra_simps)
  have c: "(of_int ((m + 1) * (m + 1)) :: rat) \<le> (of_int (m + 1) + 1 / 2) * (of_int (m + 1) + 1 / 2)"
    using mr by (simp add: algebra_simps)
  define h :: rat where "h = (of_int m + 1 / 2) * (of_int m + 1 / 2)"
  have "(sqrt_significand y = m \<and> y \<le> h) \<or> (sqrt_significand y = m + 1 \<and> h \<le> y)"
    unfolding sqrt_significand_def Let_def m_def [symmetric] h_def [symmetric] by auto
  then consider (down) "sqrt_significand y = m" "y \<le> h"
    | (up) "sqrt_significand y = m + 1" "h \<le> y"
    by blast
  then have "(of_int (sqrt_significand y) - 1 / 2) * (of_int (sqrt_significand y) - 1 / 2) \<le> y
    \<and> y \<le> (of_int (sqrt_significand y) + 1 / 2) * (of_int (sqrt_significand y) + 1 / 2)"
  proof cases
    case down
    have "(of_int m - 1 / 2) * (of_int m - 1 / 2) \<le> y"
      using a lo by (rule order_trans)
    then show ?thesis
      using down by (simp add: h_def)
  next
    case up
    have "(of_int (m + 1) - 1 / 2) * (of_int (m + 1) - 1 / 2) = h"
      by (simp add: h_def algebra_simps)
    moreover have "y \<le> (of_int (m + 1) + 1 / 2) * (of_int (m + 1) + 1 / 2)"
      using hi c by linarith
    ultimately show ?thesis
      using up by (simp only:)
  qed
  then show "(of_int (sqrt_significand y) - 1 / 2) * (of_int (sqrt_significand y) - 1 / 2) \<le> y"
    and "y \<le> (of_int (sqrt_significand y) + 1 / 2) * (of_int (sqrt_significand y) + 1 / 2)"
    by simp_all
qed

lemma sqrt_significand_range:
  assumes "pow2 104 \<le> y" and "y < pow2 106"
  shows "2 ^ 52 \<le> sqrt_significand y" and "sqrt_significand y \<le> 2 ^ 53"
proof -
  have lo: "(of_int (2 ^ 104) :: rat) \<le> y" and hi: "y < of_int (2 ^ 106)"
    using assms by (simp_all only: pow2_numeral)
  have fl: "2 ^ 104 \<le> \<lfloor>y\<rfloor>" "\<lfloor>y\<rfloor> \<le> 2 ^ 106 - 1"
    using lo hi by (simp_all add: le_floor_iff floor_less_iff)
  have "isqrt (2 ^ 104) = 2 ^ 52"
    by (rule isqrt_unique) simp_all
  moreover have "isqrt (2 ^ 104) \<le> isqrt \<lfloor>y\<rfloor>"
    using fl(1) by (intro isqrt_mono) simp_all
  ultimately show "2 ^ 52 \<le> sqrt_significand y"
    using sqrt_significand_bounds(1) [of y] by linarith
  have "isqrt (2 ^ 106 - 1) = 2 ^ 53 - 1"
    by (rule isqrt_unique) simp_all
  moreover have "isqrt \<lfloor>y\<rfloor> \<le> isqrt (2 ^ 106 - 1)"
    using fl by (intro isqrt_mono) simp_all
  ultimately show "sqrt_significand y \<le> 2 ^ 53"
    using sqrt_significand_bounds(2) [of y] by linarith
qed

lemma sqrt_double_scaled:
  assumes "0 < x"
  defines "u \<equiv> pow2 (ilog2 x div 2 - 52)"
  shows "pow2 104 \<le> x / (u * u)" and "x / (u * u) < pow2 106"
proof -
  define e where "e = ilog2 x div 2"
  have uu: "u * u = pow2 (2 * e - 104)"
    unfolding u_def e_def [symmetric] by (simp flip: pow2_add)
  have upos: "0 < u * u"
    by (simp add: uu pow2_pos)
  have "pow2 104 * (u * u) = pow2 (2 * e)"
    unfolding uu by (simp flip: pow2_add)
  also have "\<dots> \<le> pow2 (ilog2 x)"
    by (rule pow2_mono) (simp add: e_def)
  also have "\<dots> \<le> x"
    by (rule ilog2_bounds(1) [OF assms(1)])
  finally show "pow2 104 \<le> x / (u * u)"
    using upos by (simp add: pos_le_divide_eq)
  have "x < pow2 (ilog2 x + 1)"
    by (rule ilog2_bounds(2) [OF assms(1)])
  also have "\<dots> \<le> pow2 (2 * e + 2)"
    by (rule pow2_mono) (simp add: e_def)
  also have "\<dots> = pow2 106 * (u * u)"
    unfolding uu using pow2_add [of 106 "2 * e - 104"] by (simp add: add.commute)
  finally show "x / (u * u) < pow2 106"
    using upos by (simp add: pos_divide_less_eq)
qed

lemma sqrt_double_bounds:
  assumes "0 < x"
  shows "pow2 (ilog2 x div 2) \<le> sqrt_double x" and "sqrt_double x \<le> pow2 (ilog2 x div 2 + 1)"
proof -
  define e where "e = ilog2 x div 2"
  define u where "u = pow2 (e - 52)"
  define s where "s = sqrt_significand (x / (u * u))"
  have u: "0 < u" by (simp add: u_def pow2_pos)
  have sd: "sqrt_double x = of_int s * u"
    using assms by (simp add: sqrt_double_def Let_def s_def u_def e_def)
  have "2 ^ 52 \<le> s" "s \<le> 2 ^ 53"
    unfolding s_def u_def e_def
    by (rule sqrt_significand_range; rule sqrt_double_scaled [OF assms])+
  then have "(of_int (2 ^ 52) :: rat) \<le> of_int s" "(of_int s :: rat) \<le> of_int (2 ^ 53)"
    by (simp_all only: of_int_le_iff)
  then have "pow2 52 * u \<le> of_int s * u" "of_int s * u \<le> pow2 53 * u"
    using u by (simp_all only: pow2_numeral mult_le_cancel_right_pos)
  moreover have "pow2 52 * u = pow2 e"
    unfolding u_def by (rule pow2_split [symmetric])
  moreover have "pow2 53 * u = pow2 (e + 1)"
    using pow2_split [of "e + 1" 53] by (simp add: u_def)
  ultimately show "pow2 (ilog2 x div 2) \<le> sqrt_double x"
    and "sqrt_double x \<le> pow2 (ilog2 x div 2 + 1)"
    by (simp_all add: sd e_def)
qed

lemma sqrt_double_nonneg: "0 \<le> sqrt_double x"
proof (cases "0 < x")
  case True
  from sqrt_double_bounds(1) [OF this] pow2_pos [of "ilog2 x div 2"]
  show ?thesis by linarith
next
  case False
  then show ?thesis by (simp add: sqrt_double_def)
qed

lemma sqrt_double_mono_pos:
  assumes "0 < x" and "x \<le> y"
  shows "sqrt_double x \<le> sqrt_double y"
proof -
  define ex where "ex = ilog2 x div 2"
  define ey where "ey = ilog2 y div 2"
  have y: "0 < y" using assms by linarith
  have le: "ex \<le> ey"
    unfolding ex_def ey_def using ilog2_mono [OF assms] by (rule zdiv_mono1) simp
  show ?thesis
  proof (cases "ex = ey")
    case True
    define u where "u = pow2 (ex - 52)"
    have u: "0 < u * u" by (simp add: u_def pow2_pos)
    have up: "0 < u" by (simp add: u_def pow2_pos)
    have "0 \<le> x / (u * u)"
      using assms(1) u by simp
    moreover have "x / (u * u) \<le> y / (u * u)"
      using assms(2) u by (simp add: divide_right_mono)
    ultimately have "sqrt_significand (x / (u * u)) \<le> sqrt_significand (y / (u * u))"
      by (rule sqrt_significand_mono)
    then have "(of_int (sqrt_significand (x / (u * u))) :: rat)
        \<le> of_int (sqrt_significand (y / (u * u)))"
      by (simp only: of_int_le_iff)
    then have "of_int (sqrt_significand (x / (u * u))) * u
        \<le> of_int (sqrt_significand (y / (u * u))) * u"
      using up by (simp only: mult_le_cancel_right_pos)
    then show ?thesis
      using assms(1) y True by (simp add: sqrt_double_def Let_def u_def ex_def ey_def)
  next
    case False
    then have lt: "ex + 1 \<le> ey" using le by simp
    have "sqrt_double x \<le> pow2 (ex + 1)"
      unfolding ex_def by (rule sqrt_double_bounds(2) [OF assms(1)])
    also have "\<dots> \<le> pow2 ey"
      using lt by (rule pow2_mono)
    also have "\<dots> \<le> sqrt_double y"
      unfolding ey_def by (rule sqrt_double_bounds(1) [OF y])
    finally show ?thesis .
  qed
qed

lemma sqrt_double_mono:
  assumes "x \<le> y"
  shows "sqrt_double x \<le> sqrt_double y"
proof (cases "0 < x")
  case True
  then show ?thesis using assms by (rule sqrt_double_mono_pos)
next
  case False
  then have "sqrt_double x = 0" by (simp add: sqrt_double_def)
  then show ?thesis using sqrt_double_nonneg [of y] by simp
qed

subsection \<open>Numbers that round to themselves\<close>

lemma pow2_inverse: "pow2 a * pow2 (- a) = 1"
  using pow2_add [of a "- a"] by (simp add: pow2_def)

lemma round_double_fixed:
  assumes "x = of_int k * pow2 j" and "max (ilog2 \<bar>x\<bar>) (- 1022) - 52 \<le> j"
  shows "round_double x = x"
proof (cases "x = 0")
  case True
  then show ?thesis by (simp add: round_double_def)
next
  case False
  define e where "e = max (ilog2 \<bar>x\<bar>) (- 1022) - 52"
  define t :: int where "t = 2 ^ nat (j - e)"
  have t: "pow2 (j - e) = of_int t"
    using assms(2) by (simp add: pow2_nat t_def e_def)
  have "x / pow2 e = of_int k * (pow2 j / pow2 e)"
    by (simp add: assms(1))
  also have "\<dots> = of_int (k * t)"
    by (simp add: pow2_diff [symmetric] t)
  finally have "round_half_even (x / pow2 e) = k * t"
    by (simp only: round_half_even_of_int)
  then have "round_double x = of_int (k * t) * pow2 e"
    using False by (simp add: round_double_def Let_def e_def)
  also have "\<dots> = of_int k * (pow2 (j - e) * pow2 e)"
    by (simp add: t)
  also have "pow2 (j - e) * pow2 e = pow2 j"
    by (simp flip: pow2_add)
  finally show ?thesis
    by (simp add: assms(1))
qed

lemma ilog2_less:
  assumes "0 < x" and "x < pow2 b"
  shows "ilog2 x < b"
proof -
  have "pow2 (ilog2 x) < pow2 b"
    using ilog2_bounds(1) [OF assms(1)] assms(2) by linarith
  then show ?thesis by (rule pow2_less_cancel)
qed

lemma ilog2_ge:
  assumes "pow2 a \<le> x"
  shows "a \<le> ilog2 x"
proof -
  have pos: "0 < x" using assms pow2_pos [of a] by linarith
  have "pow2 a < pow2 (ilog2 x + 1)"
    using ilog2_bounds(2) [OF pos] assms by linarith
  then have "a < ilog2 x + 1" by (rule pow2_less_cancel)
  then show ?thesis by simp
qed

lemma round_double_of_int:
  assumes "\<bar>i\<bar> < 2 ^ 53"
  shows "round_double (of_int i) = of_int i"
proof (cases "i = 0")
  case True
  then show ?thesis by (simp add: round_double_def)
next
  case False
  define x :: rat where "x = of_int i"
  have "(of_int \<bar>i\<bar> :: rat) < of_int (2 ^ 53)"
    using assms by (simp only: of_int_less_iff)
  then have "\<bar>x\<bar> < pow2 53"
    by (simp add: x_def pow2_numeral)
  moreover have "0 < \<bar>x\<bar>"
    using False by (simp add: x_def)
  ultimately have "ilog2 \<bar>x\<bar> < 53"
    by (rule ilog2_less [rotated])
  then have "max (ilog2 \<bar>x\<bar>) (- 1022) - 52 \<le> 0"
    by simp
  moreover have "x = of_int i * pow2 0"
    by (simp add: x_def pow2_def)
  ultimately have "round_double x = x"
    by (rule round_double_fixed [rotated])
  then show ?thesis by (simp add: x_def)
qed

lemma sqrt_double_square:
  assumes "0 < k" and "k < 2 ^ 53"
  shows "sqrt_double (of_int (k * k)) = of_int k"
proof -
  define a :: rat where "a = of_int k"
  define j where "j = ilog2 a"
  define t :: int where "t = 2 ^ nat (52 - j)"
  have a: "0 < a" "1 \<le> a"
    using assms(1) by (simp_all add: a_def)
  have "(of_int k :: rat) < of_int (2 ^ 53)"
    using assms(2) by (simp only: of_int_less_iff)
  then have "a < pow2 53"
    by (simp add: a_def pow2_numeral)
  then have j53: "j < 53"
    unfolding j_def using a(1) by (intro ilog2_less)
  have "pow2 0 \<le> a"
    using a(2) by (simp add: pow2_def)
  then have j0: "0 \<le> j"
    unfolding j_def by (rule ilog2_ge)
  have lo: "pow2 j \<le> a" and hi: "a < pow2 (j + 1)"
    unfolding j_def by (rule ilog2_bounds [OF a(1)])+
  have "pow2 (2 * j) = pow2 j * pow2 j"
    by (simp flip: pow2_add)
  also have "\<dots> \<le> a * a"
    using lo pow2_pos [of j] by (intro mult_mono) simp_all
  finally have "2 * j \<le> ilog2 (a * a)"
    by (rule ilog2_ge)
  moreover have "a * a < pow2 (j + 1) * pow2 (j + 1)"
    using hi a(1) by (intro mult_strict_mono) simp_all
  then have "a * a < pow2 (2 * j + 2)"
    by (simp flip: pow2_add)
  then have "ilog2 (a * a) < 2 * j + 2"
    using a(1) by (intro ilog2_less) simp_all
  ultimately have e: "ilog2 (a * a) div 2 = j"
    by linarith
  have t: "pow2 (52 - j) = of_int t"
    using j53 by (simp add: pow2_nat t_def)
  have inv: "pow2 (52 - j) * pow2 (j - 52) = 1"
    using pow2_inverse [of "52 - j"] by simp
  have recip: "1 / pow2 (j - 52) = pow2 (52 - j)"
    using inv pow2_pos [of "j - 52"] by (simp add: field_simps)
  have "a * a / (pow2 (j - 52) * pow2 (j - 52))
      = (a * (1 / pow2 (j - 52))) * (a * (1 / pow2 (j - 52)))"
    by simp
  then have scaled: "a * a / (pow2 (j - 52) * pow2 (j - 52)) = of_int (k * t) * of_int (k * t)"
    by (simp only: recip t a_def of_int_mult)
  have "0 \<le> k * t"
    using assms(1) by (simp add: t_def)
  then have "sqrt_significand (of_int (k * t) * of_int (k * t)) = k * t"
    by (rule sqrt_significand_square)
  moreover have "0 < a * a"
    using a(1) by simp
  ultimately have "sqrt_double (a * a) = of_int (k * t) * pow2 (j - 52)"
    by (simp add: sqrt_double_def Let_def e scaled del: of_int_mult)
  also have "\<dots> = a * (pow2 (52 - j) * pow2 (j - 52))"
    by (simp add: t a_def)
  finally show ?thesis
    by (simp add: inv a_def)
qed

lemma sqrt_double_nearest:
  assumes "0 < x"
  defines "u \<equiv> pow2 (ilog2 x div 2 - 52)"
  shows "(sqrt_double x - u / 2) * (sqrt_double x - u / 2) \<le> x"
    and "x \<le> (sqrt_double x + u / 2) * (sqrt_double x + u / 2)"
proof -
  define y where "y = x / (u * u)"
  define s :: rat where "s = of_int (sqrt_significand y)"
  have u: "0 < u" "0 < u * u"
    by (simp_all add: u_def pow2_pos)
  have "pow2 104 \<le> y"
    unfolding y_def u_def by (rule sqrt_double_scaled [OF assms(1)])
  moreover have "1 \<le> pow2 104"
    by (simp add: pow2_def)
  ultimately have "1 \<le> y" by linarith
  from sqrt_significand_nearest [OF this]
  have n: "(s - 1 / 2) * (s - 1 / 2) \<le> y" "y \<le> (s + 1 / 2) * (s + 1 / 2)"
    by (simp_all add: s_def)
  have sd: "sqrt_double x = s * u"
    using assms(1) by (simp add: sqrt_double_def Let_def s_def y_def u_def)
  have x: "x = y * (u * u)"
    using u by (simp add: y_def)
  have "(s * u - u / 2) * (s * u - u / 2) = (s - 1 / 2) * (s - 1 / 2) * (u * u)"
    by (simp add: algebra_simps)
  also have "\<dots> \<le> y * (u * u)"
    using n(1) u(2) by (simp only: mult_le_cancel_right_pos)
  finally show "(sqrt_double x - u / 2) * (sqrt_double x - u / 2) \<le> x"
    by (simp only: sd x [symmetric])
  have "y * (u * u) \<le> (s + 1 / 2) * (s + 1 / 2) * (u * u)"
    using n(2) u(2) by (simp only: mult_le_cancel_right_pos)
  also have "\<dots> = (s * u + u / 2) * (s * u + u / 2)"
    by (simp add: algebra_simps)
  finally show "x \<le> (sqrt_double x + u / 2) * (sqrt_double x + u / 2)"
    by (simp only: sd x [symmetric])
qed

subsection \<open>Conversion of integers and \<^verbatim>\<open>math.sqrt\<close>\<close>

lemma ilog2_pow2: "ilog2 (pow2 k) = k"
  by (rule ilog2_unique) (simp_all add: pow2_strict_mono)

lemma round_double_pow2:
  assumes "- 1022 \<le> k"
  shows "round_double (pow2 k) = pow2 k"
proof (rule round_double_fixed [where k = 1 and j = k])
  show "pow2 k = of_int 1 * pow2 k" by simp
  have "\<bar>pow2 k\<bar> = pow2 k"
    using pow2_pos [of k] by simp
  then show "max (ilog2 \<bar>pow2 k\<bar>) (- 1022) - 52 \<le> k"
    using assms by (simp add: ilog2_pow2)
qed

lemma round_double_abs_le:
  assumes "\<bar>x\<bar> \<le> pow2 k" and "- 1022 \<le> k"
  shows "\<bar>round_double x\<bar> \<le> pow2 k"
proof -
  have "round_double x \<le> round_double (pow2 k)"
    using assms(1) by (intro round_double_mono) simp
  moreover have "round_double (- pow2 k) \<le> round_double x"
    using assms(1) by (intro round_double_mono) simp
  ultimately show ?thesis
    by (simp add: round_double_minus round_double_pow2 [OF assms(2)] abs_le_iff)
qed

lemma round_double_nonneg: "0 \<le> x \<Longrightarrow> 0 \<le> round_double x"
  using round_double_mono [of 0 x] by (simp add: round_double_zero)

lemma python_float_Inr:
  "python_float n = Inr x \<longleftrightarrow> x = round_double (of_int n) \<and> \<bar>round_double (of_int n)\<bar> < pow2 1024"
  by (auto simp: python_float_def Let_def)

lemma python_float_exact:
  assumes "\<bar>n\<bar> < 2 ^ 53"
  shows "python_float n = Inr (of_int n)"
proof -
  have "(of_int \<bar>n\<bar> :: rat) < of_int (2 ^ 53)"
    using assms by (simp only: of_int_less_iff)
  then have "\<bar>of_int n :: rat\<bar> < pow2 53"
    by (simp add: pow2_numeral)
  also have "pow2 53 < pow2 1024"
    by (rule pow2_strict_mono) simp
  finally show ?thesis
    by (simp add: python_float_Inr round_double_of_int [OF assms])
qed

lemma math_sqrt_Inr:
  assumes "0 \<le> n"
  shows "math_sqrt n = Inr d \<longleftrightarrow>
    d = sqrt_double (round_double (of_int n)) \<and> round_double (of_int n) < pow2 1024"
proof -
  have "0 \<le> round_double (of_int n)"
    using assms by (intro round_double_nonneg) simp
  then show ?thesis
    by (cases "python_float n") (auto simp: math_sqrt_def python_float_def Let_def split: if_splits)
qed

lemma math_sqrt_square:
  assumes "0 \<le> k" and "k \<le> 2 ^ 26"
  shows "math_sqrt (k * k) = Inr (of_int k)"
proof (cases "k = 0")
  case True
  then show ?thesis
    by (simp add: math_sqrt_def python_float_def round_double_def sqrt_double_def pow2_def)
next
  case False
  then have k: "0 < k" using assms(1) by simp
  have "k * k \<le> 2 ^ 26 * 2 ^ 26"
    using assms by (intro mult_mono) simp_all
  then have kk: "\<bar>k * k\<bar> < 2 ^ 53"
    by simp
  have "k < 2 ^ 53"
    using assms(2) by simp
  then have "sqrt_double (of_int (k * k)) = of_int k"
    using k by (intro sqrt_double_square)
  then show ?thesis
    using k by (simp add: math_sqrt_def python_float_exact [OF kk] del: of_int_mult)
qed

lemma math_sqrt_mono:
  assumes "0 \<le> m" and "m \<le> n" and "math_sqrt n = Inr dn"
  shows "\<exists>dm. math_sqrt m = Inr dm \<and> dm \<le> dn"
proof -
  have n: "0 \<le> n" using assms by linarith
  have dn: "dn = sqrt_double (round_double (of_int n))" "round_double (of_int n) < pow2 1024"
    using assms(3) by (simp_all add: math_sqrt_Inr [OF n])
  have le: "round_double (of_int m) \<le> round_double (of_int n)"
    using assms(2) by (intro round_double_mono) simp
  then have "round_double (of_int m) < pow2 1024"
    using dn(2) by linarith
  then have "math_sqrt m = Inr (sqrt_double (round_double (of_int m)))"
    by (simp add: math_sqrt_Inr [OF assms(1)])
  moreover have "sqrt_double (round_double (of_int m)) \<le> dn"
    unfolding dn(1) using le by (rule sqrt_double_mono)
  ultimately show ?thesis by blast
qed

lemma math_sqrt_range:
  assumes "0 \<le> n" and "math_sqrt n = Inr d"
  shows "0 \<le> d" and "d \<le> pow2 512"
proof -
  define x where "x = round_double (of_int n)"
  have d: "d = sqrt_double x" "x < pow2 1024"
    using assms(2) by (simp_all add: math_sqrt_Inr [OF assms(1)] x_def)
  show "0 \<le> d"
    unfolding d(1) by (rule sqrt_double_nonneg)
  show "d \<le> pow2 512"
  proof (cases "0 < x")
    case True
    then have "ilog2 x < 1024"
      using d(2) by (rule ilog2_less)
    then have "ilog2 x div 2 + 1 \<le> 512"
      by linarith
    then have "pow2 (ilog2 x div 2 + 1) \<le> pow2 512"
      by (rule pow2_mono)
    then show ?thesis
      unfolding d(1) using sqrt_double_bounds(2) [OF True] by linarith
  next
    case False
    then have "d = 0" by (simp add: d(1) sqrt_double_def)
    then show ?thesis using pow2_pos [of 512] by simp
  qed
qed

subsection \<open>The relative error of a rounding\<close>

lemma round_double_abs: "\<bar>round_double x\<bar> = round_double \<bar>x\<bar>"
proof (cases "0 \<le> x")
  case True
  then show ?thesis using round_double_nonneg [of x] by simp
next
  case False
  then have "0 \<le> round_double (- x)"
    by (intro round_double_nonneg) simp
  then show ?thesis
    using False by (simp add: round_double_minus)
qed

lemma round_double_rel_error:
  assumes "x = 0 \<or> pow2 (- 1022) \<le> \<bar>x\<bar>"
  shows "\<bar>round_double x - x\<bar> \<le> \<bar>round_double x\<bar> / 2 ^ 53"
proof (cases "x = 0")
  case True
  then show ?thesis by (simp add: round_double_zero)
next
  case False
  define l where "l = ilog2 \<bar>x\<bar>"
  have n: "pow2 (- 1022) \<le> \<bar>x\<bar>"
    using assms False by simp
  then have l: "- 1022 \<le> l"
    unfolding l_def by (rule ilog2_ge)
  have pos: "0 < \<bar>x\<bar>"
    using False by simp
  have "\<bar>round_double x - x\<bar> \<le> pow2 (max l (- 1022) - 53)"
    unfolding l_def by (rule round_double_error [OF False])
  also have "max l (- 1022) - 53 = l - 53"
    using l by simp
  also have "pow2 (l - 53) = pow2 l / 2 ^ 53"
    by (simp add: pow2_diff pow2_numeral)
  also have "pow2 l \<le> round_double \<bar>x\<bar>"
    unfolding l_def using pos l [unfolded l_def] by (rule round_double_pos_lower)
  finally show ?thesis
    by (simp add: round_double_abs divide_right_mono)
qed

lemma round_double_plus_int_normal:
  assumes "2 \<le> \<bar>c\<bar>" and "\<bar>c\<bar> < 2 ^ 51"
  shows "round_double z + of_int c = 0 \<or> pow2 (- 1022) \<le> \<bar>round_double z + of_int c\<bar>"
proof (cases "1 \<le> \<bar>round_double z + of_int c\<bar>")
  case True
  have "pow2 (- 1022) \<le> pow2 0"
    by (rule pow2_mono) simp
  then show ?thesis
    using True by (simp add: pow2_def)
next
  case False
  define x where "x = round_double z"
  define e where "e = max (ilog2 \<bar>z\<bar>) (- 1022)"
  define k where "k = round_half_even (z / pow2 (e - 52))"
  have small: "\<bar>x + of_int c\<bar> < 1"
    using False by (simp add: x_def)
  have c: "(2::rat) \<le> \<bar>of_int c\<bar>" "\<bar>of_int c :: rat\<bar> < 2 ^ 51"
    using assms by (simp_all flip: of_int_abs)
  have x1: "1 < \<bar>x\<bar>" and x2: "\<bar>x\<bar> < 2 ^ 52"
    using small c by (simp_all add: abs_if split: if_splits)
  have z: "z \<noteq> 0"
    using x1 by (auto simp: x_def round_double_zero)
  then have zpos: "0 < \<bar>z\<bar>" by simp
  have xk: "x = of_int k * pow2 (e - 52)"
    using z by (simp add: x_def round_double_def Let_def k_def e_def)
  have ax: "\<bar>x\<bar> = round_double \<bar>z\<bar>"
    by (simp add: x_def round_double_abs)
  have "\<bar>x\<bar> \<le> pow2 (e + 1)"
    unfolding ax e_def by (rule round_double_pos_upper [OF zpos])
  then have "pow2 0 < pow2 (e + 1)"
    using x1 by (simp add: pow2_def)
  then have e0: "0 \<le> e"
    using pow2_less_cancel [of 0 "e + 1"] by simp
  then have un: "- 1022 \<le> ilog2 \<bar>z\<bar>" "ilog2 \<bar>z\<bar> = e"
    by (auto simp: e_def max_def split: if_splits)
  have "pow2 e \<le> \<bar>x\<bar>"
    unfolding ax un(2) [symmetric] by (rule round_double_pos_lower [OF zpos un(1)])
  then have "pow2 e < pow2 52"
    using x2 by (simp add: pow2_numeral)
  then have e52: "e < 52"
    by (rule pow2_less_cancel)
  define n where "n = k * 2 ^ nat e + c * 2 ^ 52"
  have "pow2 (e - 52) = pow2 e * pow2 (- 52)"
    using pow2_add [of e "- 52"] by simp
  also have "pow2 e = of_int (2 ^ nat e)"
    using e0 by (rule pow2_nat)
  finally have grid: "pow2 (e - 52) = of_int (2 ^ nat e) * pow2 (- 52)" .
  have "1 = pow2 52 * pow2 (- 52)"
    by (simp add: pow2_inverse)
  then have one: "(1::rat) = of_int (2 ^ 52) * pow2 (- 52)"
    by (simp only: pow2_numeral)
  have "x + of_int c = of_int k * (of_int (2 ^ nat e) * pow2 (- 52)) + of_int c * 1"
    by (simp add: xk grid)
  also have "\<dots> = of_int k * (of_int (2 ^ nat e) * pow2 (- 52))
      + of_int c * (of_int (2 ^ 52) * pow2 (- 52))"
    by (simp only: one [symmetric])
  also have "\<dots> = of_int n * pow2 (- 52)"
    by (simp add: n_def algebra_simps)
  finally have y: "x + of_int c = of_int n * pow2 (- 52)" .
  show ?thesis
  proof (cases "n = 0")
    case True
    then show ?thesis using y by (simp add: x_def)
  next
    case False
    then have "1 \<le> \<bar>n\<bar>" by simp
    then have "(of_int 1 :: rat) \<le> of_int \<bar>n\<bar>"
      by (simp only: of_int_le_iff)
    then have "(1::rat) \<le> \<bar>of_int n\<bar>"
      by simp
    then have "1 * pow2 (- 52) \<le> \<bar>of_int n\<bar> * pow2 (- 52)"
      using pow2_pos [of "- 52"] by (simp only: mult_le_cancel_right_pos)
    also have "\<dots> = \<bar>x + of_int c\<bar>"
      using pow2_pos [of "- 52"] by (simp add: y abs_mult)
    finally have "pow2 (- 52) \<le> \<bar>x + of_int c\<bar>"
      by simp
    moreover have "pow2 (- 1022) \<le> pow2 (- 52)"
      by (rule pow2_mono) simp
    ultimately show ?thesis
      by (simp add: x_def)
  qed
qed

subsection \<open>The error of the square root and of a chain of operations\<close>

text \<open>
  Each operation returns the float nearest to the exact result, so away from the
  subnormal range it is off by at most \<open>2\<^sup>-\<^sup>5\<^sup>3\<close> of the exact result. The square root of
  an integer accumulates the error of the conversion and its own.
\<close>

lemma round_double_rel_error_arg:
  assumes "x = 0 \<or> pow2 (- 1022) \<le> \<bar>x\<bar>"
  shows "\<bar>round_double x - x\<bar> \<le> \<bar>x\<bar> / 2 ^ 53"
proof (cases "x = 0")
  case True
  then show ?thesis by (simp add: round_double_zero)
next
  case False
  define l where "l = ilog2 \<bar>x\<bar>"
  have n: "pow2 (- 1022) \<le> \<bar>x\<bar>"
    using assms False by simp
  then have l: "- 1022 \<le> l"
    unfolding l_def by (rule ilog2_ge)
  have pos: "0 < \<bar>x\<bar>"
    using False by simp
  have "\<bar>round_double x - x\<bar> \<le> pow2 (max l (- 1022) - 53)"
    unfolding l_def by (rule round_double_error [OF False])
  also have "max l (- 1022) - 53 = l - 53"
    using l by simp
  also have "pow2 (l - 53) = pow2 l / 2 ^ 53"
    by (simp add: pow2_diff pow2_numeral)
  also have "pow2 l \<le> \<bar>x\<bar>"
    unfolding l_def by (rule ilog2_bounds(1) [OF pos])
  finally show ?thesis
    by (simp add: divide_right_mono)
qed

lemma sqrt_double_error:
  assumes "0 < x"
  shows "\<bar>of_rat (sqrt_double x) - sqrt (of_rat x)\<bar> \<le> sqrt (of_rat x) / 2 ^ 53"
proof -
  define e where "e = ilog2 x div 2"
  define h where "h = pow2 (e - 52) / 2"
  define d where "d = sqrt_double x"
  have n: "(d - h) * (d - h) \<le> x" "x \<le> (d + h) * (d + h)"
    unfolding d_def h_def e_def by (rule sqrt_double_nearest [OF assms])+
  have h: "h = pow2 e / 2 ^ 53"
    using pow2_Suc [of "e - 53"] by (simp add: h_def pow2_diff [of e 53] pow2_numeral)
  have hpos: "0 < h"
    by (simp add: h_def pow2_pos)
  have dpos: "0 \<le> d"
    unfolding d_def by (rule sqrt_double_nonneg)
  have "pow2 e * pow2 e = pow2 (2 * e)"
    by (simp flip: pow2_add)
  also have "\<dots> \<le> pow2 (ilog2 x)"
    by (rule pow2_mono) (simp add: e_def)
  also have "\<dots> \<le> x"
    by (rule ilog2_bounds(1) [OF assms])
  finally have pe: "pow2 e * pow2 e \<le> x" .
  have "(of_rat (d - h) :: real)\<^sup>2 \<le> of_rat x"
    using n(1) by (simp add: power2_eq_square of_rat_less_eq flip: of_rat_mult)
  then have lo: "(of_rat (d - h) :: real) \<le> sqrt (of_rat x)"
    by (rule real_le_rsqrt)
  have "(of_rat x :: real) \<le> (of_rat (d + h))\<^sup>2"
    using n(2) by (simp add: power2_eq_square of_rat_less_eq flip: of_rat_mult)
  moreover have "(0::real) \<le> of_rat (d + h)"
    using dpos hpos by simp
  ultimately have hi: "sqrt (of_rat x) \<le> (of_rat (d + h) :: real)"
    by (intro real_le_lsqrt)
  have "(of_rat (pow2 e) :: real)\<^sup>2 \<le> of_rat x"
    using pe by (simp add: power2_eq_square of_rat_less_eq flip: of_rat_mult)
  then have "(of_rat (pow2 e) :: real) \<le> sqrt (of_rat x)"
    by (rule real_le_rsqrt)
  then have "(of_rat h :: real) \<le> sqrt (of_rat x) / 2 ^ 53"
    by (simp add: h of_rat_divide of_rat_power divide_right_mono)
  moreover have "\<bar>of_rat d - sqrt (of_rat x)\<bar> \<le> (of_rat h :: real)"
    using lo hi by (simp add: of_rat_diff of_rat_add abs_le_iff)
  ultimately show ?thesis
    unfolding d_def by linarith
qed

lemma math_sqrt_error:
  assumes "0 \<le> n" and "math_sqrt n = Inr d"
  shows "\<bar>of_rat d - sqrt (of_int n)\<bar> \<le> 3 * sqrt (of_int n) / 2 ^ 53"
proof (cases "n = 0")
  case True
  then have "d = 0"
    using assms(2) by (simp add: math_sqrt_Inr round_double_zero sqrt_double_def)
  then show ?thesis
    using True by simp
next
  case False
  then have n1: "1 \<le> n" using assms(1) by simp
  define x where "x = round_double (of_int n)"
  have d: "d = sqrt_double x"
    using assms(2) by (simp add: math_sqrt_Inr [OF assms(1)] x_def)
  have "round_double (of_int 1) \<le> round_double (of_int n)"
    using n1 by (intro round_double_mono) simp
  then have x1: "1 \<le> x"
    using round_double_of_int [of 1] by (simp add: x_def)
  have "pow2 (- 1022) \<le> pow2 0"
    by (rule pow2_mono) simp
  then have "pow2 (- 1022) \<le> \<bar>of_int n\<bar>"
    using n1 by (simp add: pow2_def)
  then have "\<bar>x - of_int n\<bar> \<le> \<bar>of_int n\<bar> / 2 ^ 53"
    unfolding x_def by (intro round_double_rel_error_arg) simp
  then have "(of_rat \<bar>x - of_int n\<bar> :: real) \<le> of_rat (\<bar>of_int n\<bar> / 2 ^ 53)"
    by (simp only: of_rat_less_eq)
  moreover have "(of_rat \<bar>x - of_int n\<bar> :: real) = \<bar>of_rat x - of_int n\<bar>"
    unfolding abs_of_rat [symmetric] by (simp add: of_rat_diff)
  moreover have "(of_rat (\<bar>of_int n\<bar> / 2 ^ 53) :: real) = of_int n / 2 ^ 53"
    using n1 by (simp add: of_rat_divide of_rat_power)
  ultimately have conv: "\<bar>of_rat x - of_int n\<bar> \<le> (of_int n :: real) / 2 ^ 53"
    by simp
  define S :: real where "S = sqrt (of_int n)"
  define T :: real where "T = sqrt (of_rat x)"
  have S1: "1 \<le> S"
    using n1 by (simp add: S_def)
  have T0: "0 \<le> T"
    using x1 by (simp add: T_def)
  have SS: "S * S = of_int n"
    using n1 by (simp add: S_def)
  have TT: "T * T = of_rat x"
    using x1 by (simp add: T_def)
  have "(T - S) * (T + S) = of_rat x - of_int n"
    by (simp add: algebra_simps SS TT)
  then have "\<bar>(T - S) * (T + S)\<bar> = \<bar>of_rat x - of_int n\<bar>"
    by (rule arg_cong)
  then have "\<bar>of_rat x - of_int n\<bar> = \<bar>T - S\<bar> * \<bar>T + S\<bar>"
    by (simp only: abs_mult)
  then have "\<bar>T - S\<bar> * (T + S) = \<bar>of_rat x - of_int n\<bar>"
    using T0 S1 by simp
  moreover have "\<bar>T - S\<bar> * S \<le> \<bar>T - S\<bar> * (T + S)"
    using T0 by (intro mult_left_mono) simp_all
  ultimately have "\<bar>T - S\<bar> * S \<le> S * S / 2 ^ 53"
    using conv by (simp add: SS)
  then have "\<bar>T - S\<bar> * S \<le> (S / 2 ^ 53) * S"
    by simp
  then have ts: "\<bar>T - S\<bar> \<le> S / 2 ^ 53"
    using S1 by (simp only: mult_le_cancel_right)
  have "0 < x" using x1 by linarith
  from sqrt_double_error [OF this]
  have dt: "\<bar>of_rat d - T\<bar> \<le> T / 2 ^ 53"
    by (simp add: d T_def)
  have "S / 2 ^ 53 \<le> S"
    using S1 by (simp add: field_simps)
  then have "T \<le> 2 * S"
    using ts by linarith
  then have "T / 2 ^ 53 \<le> 2 * S / 2 ^ 53"
    by (simp add: divide_right_mono)
  then show ?thesis
    using dt ts unfolding S_def [symmetric] by linarith
qed

lemma round_double_real_error:
  assumes "x = 0 \<or> pow2 (- 1022) \<le> \<bar>x\<bar>"
  shows "\<bar>real_of_rat (round_double x) - of_rat x\<bar> \<le> \<bar>of_rat x\<bar> / 2 ^ 53"
proof -
  have "real_of_rat \<bar>round_double x - x\<bar> \<le> of_rat (\<bar>x\<bar> / 2 ^ 53)"
    using round_double_rel_error_arg [OF assms] by (simp only: of_rat_less_eq)
  moreover have "real_of_rat \<bar>round_double x - x\<bar> = \<bar>of_rat (round_double x) - of_rat x\<bar>"
    unfolding abs_of_rat [symmetric] by (simp add: of_rat_diff)
  moreover have "real_of_rat (\<bar>x\<bar> / 2 ^ 53) = \<bar>of_rat x\<bar> / 2 ^ 53"
    by (simp add: of_rat_divide of_rat_power)
  ultimately show ?thesis
    by (simp only:)
qed

lemma math_sqrt_zero_or_ge_one:
  assumes "0 \<le> n" and "math_sqrt n = Inr d"
  shows "d = 0 \<or> 1 \<le> d"
proof (cases "n = 0")
  case True
  then show ?thesis
    using assms(2) math_sqrt_square [of 0] by simp
next
  case False
  then have "1 \<le> n" using assms(1) by simp
  from math_sqrt_mono [OF _ this assms(2)]
  obtain dm where "math_sqrt 1 = Inr dm" "dm \<le> d"
    by auto
  then show ?thesis
    using math_sqrt_square [of 1] by simp
qed

lemma error_accumulation:
  fixes D d m t v c :: real
  assumes D: "0 \<le> D" and d: "0 \<le> d" and c: "\<bar>c\<bar> \<le> 50"
    and eD: "\<bar>d - D\<bar> \<le> 3 * D / 2 ^ 53"
    and eM: "\<bar>m - 5 * d\<bar> \<le> 5 * d / 2 ^ 53"
    and eT: "\<bar>t - (1000 - m)\<bar> \<le> \<bar>1000 - m\<bar> / 2 ^ 53"
    and eV: "\<bar>v - (c + t)\<bar> \<le> \<bar>c + t\<bar> / 2 ^ 53"
  shows "\<bar>v - (c + 1000 - 5 * D)\<bar> \<le> (1050 + 5 * D) / 2 ^ 50"
proof -
  define e :: real where "e = 1 / 2 ^ 53"
  have e: "0 \<le> e" "e \<le> 1 / 2048"
    by (simp_all add: e_def)
  have eD': "\<bar>d - D\<bar> \<le> 3 * (e * D)"
    using eD by (simp add: e_def)
  have eM': "\<bar>m - 5 * d\<bar> \<le> 5 * (e * d)"
    using eM by (simp add: e_def)
  have eT': "\<bar>t - (1000 - m)\<bar> \<le> e * \<bar>1000 - m\<bar>"
    using eT by (simp add: e_def)
  have eV': "\<bar>v - (c + t)\<bar> \<le> e * \<bar>c + t\<bar>"
    using eV by (simp add: e_def)
  have eD0: "0 \<le> e * D" "e * D \<le> D / 2048"
    using e D mult_right_mono [of e "1 / 2048" D] by simp_all
  have d2: "d \<le> 2 * D"
    using eD' eD0 by linarith
  have "e * d \<le> e * (2 * D)"
    using d2 e(1) by (rule mult_left_mono)
  then have ed: "0 \<le> e * d" "e * d \<le> 2 * (e * D)"
    using e(1) d by simp_all
  have m5: "\<bar>m - 5 * D\<bar> \<le> 25 * (e * D)"
    using eM' eD' ed by linarith
  have m1: "\<bar>1000 - m\<bar> \<le> 1000 + 6 * D"
    using m5 eD0 D by linarith
  have "e * \<bar>1000 - m\<bar> \<le> e * (1000 + 6 * D)"
    using m1 e(1) by (rule mult_left_mono)
  also have "\<dots> = 1000 * e + 6 * (e * D)"
    by (simp add: algebra_simps)
  finally have t5: "\<bar>t - (1000 - 5 * D)\<bar> \<le> 1000 * e + 31 * (e * D)"
    using eT' m5 by linarith
  have ct: "\<bar>c + t\<bar> \<le> 1051 + 6 * D"
    using t5 c e eD0 D by linarith
  have "e * \<bar>c + t\<bar> \<le> e * (1051 + 6 * D)"
    using ct e(1) by (rule mult_left_mono)
  also have "\<dots> = 1051 * e + 6 * (e * D)"
    by (simp add: algebra_simps)
  finally have "\<bar>v - (c + 1000 - 5 * D)\<bar> \<le> 2051 * e + 37 * (e * D)"
    using eV' t5 by linarith
  also have "\<dots> \<le> 8400 * e + 40 * (e * D)"
    using e(1) eD0(1) by linarith
  also have "\<dots> = (1050 + 5 * D) / 2 ^ 50"
    by (simp add: e_def)
  finally show ?thesis .
qed

section \<open>Properties of the soccer evaluator\<close>

lemma soccer_Soccer:
  "soccer (Soccer s) p =
     (case math_sqrt ((fst (get_ball_position s) - fst (get_goal_position s (1 - p)))\<^sup>2 +
                      (snd (get_ball_position s) - snd (get_goal_position s (1 - p)))\<^sup>2) of
        Inl e \<Rightarrow> Inl e
      | Inr d \<Rightarrow>
          Inr (float_add (if get_possession s = Some p then 50 else - 50)
                 (float_sub 1000 (float_mul 5 d))))"
  by (auto simp: soccer_def soccer_guard_class Let_def split: sum.split)

lemma soccer_integer_distance:
  assumes "(fst (get_ball_position s) - fst (get_goal_position s (1 - p)))\<^sup>2 +
           (snd (get_ball_position s) - snd (get_goal_position s (1 - p)))\<^sup>2 = k * k"
    and "0 \<le> k" and "k \<le> 2 ^ 26"
  shows "soccer (Soccer s) p
         = Inr (of_int ((if get_possession s = Some p then 50 else - 50) + 1000 - 5 * k))"
proof -
  have a: "\<bar>5 * k\<bar> < 2 ^ 53" "\<bar>1000 - 5 * k\<bar> < 2 ^ 53"
    "\<bar>50 + (1000 - 5 * k)\<bar> < 2 ^ 53" "\<bar>- 50 + (1000 - 5 * k)\<bar> < 2 ^ 53"
    using assms(2,3) by simp_all
  have m: "float_mul 5 (of_int k) = of_int (5 * k)"
    using round_double_of_int [OF a(1)] by (simp add: float_mul_def)
  have s: "float_sub 1000 (of_int (5 * k)) = of_int (1000 - 5 * k)"
    using round_double_of_int [OF a(2)] by (simp add: float_sub_def)
  have p: "float_add 50 (of_int (1000 - 5 * k)) = of_int (50 + (1000 - 5 * k))"
    using round_double_of_int [OF a(3)] by (simp add: float_add_def)
  have n: "float_add (- 50) (of_int (1000 - 5 * k)) = of_int (- 50 + (1000 - 5 * k))"
    using round_double_of_int [OF a(4)] by (simp add: float_add_def)
  show ?thesis
    unfolding soccer_Soccer assms(1) math_sqrt_square [OF assms(2,3)]
    by (simp add: m s p n del: of_int_add of_int_diff of_int_mult of_int_minus)
qed

lemma sqdist_nonneg: "0 \<le> (a::int)\<^sup>2 + b\<^sup>2"
  by simp




lemma float_add_mono_left: "a \<le> b \<Longrightarrow> float_add a c \<le> float_add b c"
  unfolding float_add_def by (rule round_double_mono) simp




lemma soccer_score_finite:
  assumes "soccer (Soccer s) p = Inr v"
  shows "\<exists>d c. math_sqrt ((fst (get_ball_position s) - fst (get_goal_position s (1 - p)))\<^sup>2 +
                         (snd (get_ball_position s) - snd (get_goal_position s (1 - p)))\<^sup>2) = Inr d \<and>
           \<bar>c\<bar> = 50 \<and> v = float_add c (float_sub 1000 (float_mul 5 d)) \<and>
           \<bar>d\<bar> < pow2 1024 \<and> \<bar>float_mul 5 d\<bar> < pow2 1024 \<and>
           \<bar>float_sub 1000 (float_mul 5 d)\<bar> < pow2 1024 \<and> \<bar>v\<bar> < pow2 1024"
proof -
  define n where "n = (fst (get_ball_position s) - fst (get_goal_position s (1 - p)))\<^sup>2 +
           (snd (get_ball_position s) - snd (get_goal_position s (1 - p)))\<^sup>2"
  define c :: rat where "c = (if get_possession s = Some p then 50 else - 50)"
  have n: "0 \<le> n"
    unfolding n_def by (rule sqdist_nonneg)
  obtain d where d: "math_sqrt n = Inr d"
    using assms unfolding soccer_Soccer n_def [symmetric] by (cases "math_sqrt n") simp_all
  have v: "v = float_add c (float_sub 1000 (float_mul 5 d))"
    using assms unfolding soccer_Soccer n_def [symmetric] d by (simp add: c_def)
  have c: "\<bar>c\<bar> = 50" by (simp add: c_def)
  note r = math_sqrt_range [OF n d]
  have p10: "(1000::rat) \<le> pow2 515" "(50::rat) \<le> pow2 516"
    using pow2_mono [of 10 515] pow2_mono [of 6 516] by (simp_all add: pow2_numeral)
  have "\<bar>5 * d\<bar> \<le> 8 * pow2 512"
    using r by simp
  also have "8 * pow2 512 = pow2 515"
    using pow2_add [of 3 512] by (simp add: pow2_numeral)
  finally have m: "\<bar>float_mul 5 d\<bar> \<le> pow2 515"
    unfolding float_mul_def by (rule round_double_abs_le) simp
  have "\<bar>1000 - float_mul 5 d\<bar> \<le> pow2 515 + pow2 515"
    using m p10(1) by linarith
  also have "pow2 515 + pow2 515 = pow2 516"
    using pow2_Suc [of 515] by simp
  finally have t: "\<bar>float_sub 1000 (float_mul 5 d)\<bar> \<le> pow2 516"
    unfolding float_sub_def by (rule round_double_abs_le) simp
  have "\<bar>c + float_sub 1000 (float_mul 5 d)\<bar> \<le> pow2 516 + pow2 516"
    using t p10(2) c by linarith
  also have "pow2 516 + pow2 516 = pow2 517"
    using pow2_Suc [of 516] by simp
  finally have "\<bar>v\<bar> \<le> pow2 517"
    unfolding v float_add_def by (rule round_double_abs_le) simp
  moreover have "pow2 512 < pow2 1024" "pow2 515 < pow2 1024" "pow2 516 < pow2 1024"
    "pow2 517 < pow2 1024"
    by (rule pow2_strict_mono, simp)+
  ultimately have "\<bar>d\<bar> < pow2 1024 \<and> \<bar>float_mul 5 d\<bar> < pow2 1024 \<and>
           \<bar>float_sub 1000 (float_mul 5 d)\<bar> < pow2 1024 \<and> \<bar>v\<bar> < pow2 1024"
    using r m t by linarith
  with d v c show ?thesis
    unfolding n_def by blast
qed

lemma soccer_error_bound:
  assumes "soccer (Soccer s) p = Inr v"
  shows "\<bar>real_of_rat v - ((if get_possession s = Some p then 50 else - 50) + 1000
            - 5 * euclidean_distance (get_ball_position s) (get_goal_position s (1 - p)))\<bar>
         \<le> (1050 + 5 * euclidean_distance (get_ball_position s) (get_goal_position s (1 - p)))
             / 2 ^ 50"
proof -
  define n where "n = (fst (get_ball_position s) - fst (get_goal_position s (1 - p)))\<^sup>2 +
           (snd (get_ball_position s) - snd (get_goal_position s (1 - p)))\<^sup>2"
  define c :: int where "c = (if get_possession s = Some p then 50 else - 50)"
  define D :: real where "D = sqrt (of_int n)"
  have n: "0 \<le> n"
    unfolding n_def by (rule sqdist_nonneg)
  obtain d where d: "math_sqrt n = Inr d"
    using assms unfolding soccer_Soccer n_def [symmetric] by (cases "math_sqrt n") simp_all
  define m where "m = round_double (5 * d)"
  define t where "t = round_double (of_int 1000 - m)"
  have v: "v = round_double (of_int c + t)"
    using assms unfolding soccer_Soccer n_def [symmetric] d
    by (auto simp: float_add_def float_sub_def float_mul_def c_def t_def m_def)
  have D: "euclidean_distance (get_ball_position s) (get_goal_position s (1 - p)) = D"
    by (simp only: euclidean_distance_def n_def D_def)
  have D0: "0 \<le> D"
    using n by (simp add: D_def)
  have d0: "0 \<le> d"
    using n d by (rule math_sqrt_range)
  have one: "pow2 (- 1022) \<le> 1"
    using pow2_mono [of "- 1022" 0] by (simp add: pow2_def)
  have "d = 0 \<or> 1 \<le> d"
    using n d by (rule math_sqrt_zero_or_ge_one)
  then have nm: "5 * d = 0 \<or> pow2 (- 1022) \<le> \<bar>5 * d\<bar>"
    using one by auto
  have "round_double (5 * d) + of_int (- 1000) = 0
      \<or> pow2 (- 1022) \<le> \<bar>round_double (5 * d) + of_int (- 1000)\<bar>"
    by (rule round_double_plus_int_normal) simp_all
  moreover have "\<bar>round_double (5 * d) + of_int (- 1000)\<bar> = \<bar>of_int 1000 - m\<bar>"
    by (simp add: m_def abs_minus_commute)
  ultimately have nt: "of_int 1000 - m = 0 \<or> pow2 (- 1022) \<le> \<bar>of_int 1000 - m\<bar>"
    by (auto simp: m_def)
  have "round_double (of_int 1000 - m) + of_int c = 0
      \<or> pow2 (- 1022) \<le> \<bar>round_double (of_int 1000 - m) + of_int c\<bar>"
    by (rule round_double_plus_int_normal) (simp_all add: c_def)
  then have nv: "of_int c + t = 0 \<or> pow2 (- 1022) \<le> \<bar>of_int c + t\<bar>"
    by (simp add: t_def add.commute)
  have eD: "\<bar>real_of_rat d - D\<bar> \<le> 3 * D / 2 ^ 53"
    unfolding D_def using n d by (rule math_sqrt_error)
  have eM: "\<bar>real_of_rat m - 5 * of_rat d\<bar> \<le> 5 * of_rat d / 2 ^ 53"
    using round_double_real_error [OF nm] d0 by (simp add: m_def of_rat_mult)
  have eT: "\<bar>real_of_rat t - (1000 - of_rat m)\<bar> \<le> \<bar>1000 - real_of_rat m\<bar> / 2 ^ 53"
    using round_double_real_error [OF nt] by (simp add: t_def of_rat_diff)
  have eV: "\<bar>real_of_rat v - (of_int c + of_rat t)\<bar> \<le> \<bar>of_int c + real_of_rat t\<bar> / 2 ^ 53"
    using round_double_real_error [OF nv] by (simp add: v of_rat_add)
  have c: "\<bar>real_of_int c\<bar> \<le> 50"
    by (simp add: c_def)
  have d0': "0 \<le> real_of_rat d"
    using d0 by simp
  have "\<bar>real_of_rat v - (of_int c + 1000 - 5 * D)\<bar> \<le> (1050 + 5 * D) / 2 ^ 50"
    using D0 d0' c eD eM eT eV by (rule error_accumulation)
  moreover have "real_of_int c = (if get_possession s = Some p then 50 else - 50)"
    by (simp add: c_def)
  ultimately show ?thesis
    unfolding D by simp
qed

lemma soccer_returns:
  assumes "euclidean_distance (get_ball_position s) (get_goal_position s (1 - p)) \<le> 2 ^ 511"
  shows "\<exists>v. soccer (Soccer s) p = Inr v"
proof -
  define n where "n = (fst (get_ball_position s) - fst (get_goal_position s (1 - p)))\<^sup>2 +
           (snd (get_ball_position s) - snd (get_goal_position s (1 - p)))\<^sup>2"
  have n: "0 \<le> n"
    unfolding n_def by (rule sqdist_nonneg)
  have "sqrt (of_int n) \<le> 2 ^ 511"
    using assms by (simp only: euclidean_distance_def n_def)
  then have "real_of_int n \<le> (2 ^ 511)\<^sup>2"
    by (rule sqrt_le_D)
  also have "((2::real) ^ 511)\<^sup>2 = of_int (2 ^ nat 1022)"
    by (simp flip: power_mult)
  finally have "n \<le> 2 ^ nat 1022"
    by (simp only: of_int_le_iff)
  then have "(of_int n :: rat) \<le> of_int (2 ^ nat 1022)"
    by (simp only: of_int_le_iff)
  then have "\<bar>of_int n :: rat\<bar> \<le> pow2 1022"
    using n by (simp only: pow2_nat [of 1022, simplified]) simp
  then have "\<bar>round_double (of_int n)\<bar> \<le> pow2 1022"
    by (rule round_double_abs_le) simp
  moreover have "pow2 1022 < pow2 1024"
    by (rule pow2_strict_mono) simp
  ultimately have "round_double (of_int n) < pow2 1024"
    by linarith
  then have "math_sqrt n = Inr (sqrt_double (round_double (of_int n)))"
    by (simp add: math_sqrt_Inr [OF n])
  then show ?thesis
    unfolding soccer_Soccer n_def [symmetric] by simp
qed

lemma soccer_ball_2_4:
  "soccer (Soccer \<lparr>get_goal_position = (\<lambda>i. (0, 0)), get_ball_position = (2, 4),
                   get_possession = Some 0\<rparr>) 0 = Inr (564950690873607 / 549755813888)"
proof -
  have f: "python_float 20 = Inr 20"
    using python_float_exact [of 20] by simp
  have r: "sqrt_double 20 = 629397181890197 / 140737488355328"
    by code_simp
  have d: "math_sqrt 20 = Inr (629397181890197 / 140737488355328)"
    by (simp add: math_sqrt_def f r)
  have m: "float_mul 5 (629397181890197 / 140737488355328) = 3146985909450985 / 140737488355328"
    by code_simp
  have t: "float_sub 1000 (3146985909450985 / 140737488355328)
      = 8599406402867313 / 8796093022208"
    by code_simp
  have a: "float_add 50 (8599406402867313 / 8796093022208) = 564950690873607 / 549755813888"
    by code_simp
  show ?thesis
    by (simp add: soccer_Soccer d m t a)
qed

section \<open>Claims about the soccer evaluator\<close>

text \<open>
  The guard of the soccer evaluator does what it is written for: on every state that is
  not a soccer state it raises the mismatch error, whatever the player, with no accessor
  of the state consulted.
\<close>

lemma soccer_rejects_other_variant:
  "(\<forall>s. state \<noteq> Soccer s) \<Longrightarrow>
     soccer state p = Inl incompatible \<and> soccer_log state p = ([], Inl incompatible)"
  by (cases state) (simp_all add: soccer_def soccer_log_def soccer_guard_class)

lemma soccer_log_snd: "snd (soccer_log state p) = soccer state p"
  by (cases state) (simp_all add: soccer_def soccer_log_def soccer_guard_class)

text \<open>
  Claim C5 says that, whatever the player, the soccer evaluator raises the mismatch error
  on a state that is not a soccer state, and the connect-four evaluator on a state that
  is not a connect-four state, before any accessor of the state is consulted. The soccer
  evaluator does. The connect-four evaluator, called with a soccer state, consults no
  accessor either, but the error it raises is \<^verbatim>\<open>AttributeError\<close> from the guard's own
  expression, not the mismatch error.
\<close>

theorem connect_four_mismatch_raises_attribute_error:
  "connect_four
     (Soccer \<lparr>get_goal_position = (\<lambda>i. (5, 0)), get_ball_position = (5, 5),
               get_possession = Some 0\<rparr>) 0
     = Inl (AttributeError ''Connect4State'') \<and>
   connect_four_log
     (Soccer \<lparr>get_goal_position = (\<lambda>i. (5, 0)), get_ball_position = (5, 5),
               get_possession = Some 0\<rparr>) 0
     = ([], Inl (AttributeError ''Connect4State'')) \<and>
   AttributeError ''Connect4State'' \<noteq> incompatible \<and>
   soccer (Connect4 \<lparr>get_lines = [[Piece 0, Piece 0, Empty, Empty]]\<rparr>) 0 = Inl incompatible \<and>
   soccer_log (Connect4 \<lparr>get_lines = [[Piece 0, Piece 0, Empty, Empty]]\<rparr>) 0
     = ([], Inl incompatible)"
  by (simp add: connect_four_raises connect_four_log_raises incompatible_def
      soccer_def soccer_log_def soccer_guard_class)

text \<open>
  Claim C8. The soccer score does not depend on the goal position of the perspective
  player: two soccer states that agree on the ball position, on the possession and on
  the goal position of the opponent \<open>1 - p\<close> get the same result, whatever they answer
  for the goal of \<open>p\<close>.
\<close>

theorem soccer_ignores_own_goal:
  assumes "get_ball_position a = get_ball_position b"
    and "get_possession a = get_possession b"
    and "get_goal_position a (1 - p) = get_goal_position b (1 - p)"
  shows "soccer (Soccer a) p = soccer (Soccer b) p"
  using assms by (simp add: soccer_def soccer_guard_class)

theorem soccer_ignores_own_goal_witness:
  "soccer (Soccer \<lparr>get_goal_position = (\<lambda>i. if i = 0 then (5, 10) else (5, 0)),
                   get_ball_position = (5, 5), get_possession = Some 0\<rparr>) 0
   = soccer (Soccer \<lparr>get_goal_position = (\<lambda>i. if i = 0 then (- 3, 77) else (5, 0)),
                     get_ball_position = (5, 5), get_possession = Some 0\<rparr>) 0 \<and>
   get_goal_position \<lparr>get_goal_position = (\<lambda>i. if i = 0 then (5, 10) else (5, 0)),
                      get_ball_position = (5, 5), get_possession = Some 0\<rparr> 0
   \<noteq> get_goal_position \<lparr>get_goal_position = (\<lambda>i. if i = 0 then (- 3, 77) else (5, 0)),
                        get_ball_position = (5, 5), get_possession = Some (0::int)\<rparr> 0"
  using soccer_ignores_own_goal
    [of "\<lparr>get_goal_position = (\<lambda>i. if i = 0 then (5, 10) else (5, 0)),
          get_ball_position = (5, 5), get_possession = Some 0\<rparr>"
        "\<lparr>get_goal_position = (\<lambda>i. if i = 0 then (- 3, 77) else (5, 0)),
          get_ball_position = (5, 5), get_possession = Some 0\<rparr>" 0]
  by simp

text \<open>
  Claim C1 says that for every soccer state and player the score equals the possession
  term, 50 with the ball and \<open>-50\<close> without, plus 1000 minus 5 times the Euclidean distance
  from the ball to the goal of the opponent. The score is a float, computed by a rounded
  square root, product, difference and sum, the sum taken last. With the ball at (2,4),
  the goal of the opponent at (0,0) and the ball in the possession of the player, the
  distance is the square root of 20 and the score is the float 1027.639320225002: it is
  a rational number, so it is not \<open>1050 - 5 \<surd>20\<close>; and it is not the float that the
  formula gives when read from left to right in floats either, which is
  1027.6393202250022.
\<close>

theorem soccer_formula_inexact:
  "soccer (Soccer \<lparr>get_goal_position = (\<lambda>i. (0, 0)), get_ball_position = (2, 4),
                   get_possession = Some 0\<rparr>) 0 = Inr (564950690873607 / 549755813888) \<and>
   real_of_rat (564950690873607 / 549755813888)
     \<noteq> 50 + 1000 - 5 * euclidean_distance (2, 4) (0, 0) \<and>
   float_sub (float_add 50 1000) (float_mul 5 (sqrt_double 20))
     = 4519605526988857 / 4398046511104 \<and>
   (564950690873607 / 549755813888 :: rat) \<noteq> 4519605526988857 / 4398046511104"
proof -
  have e: "euclidean_distance (2, 4) (0, 0) = sqrt 20"
    by (simp add: euclidean_distance_def)
  have "real_of_rat (564950690873607 / 549755813888) \<noteq> 50 + 1000 - 5 * sqrt 20"
  proof
    assume "real_of_rat (564950690873607 / 549755813888) = 50 + 1000 - 5 * sqrt 20"
    then have "sqrt 20 = (1050 - real_of_rat (564950690873607 / 549755813888)) / 5"
      by simp
    also have "\<dots> = real_of_rat ((1050 - 564950690873607 / 549755813888) / 5)"
      by (simp only: of_rat_divide of_rat_diff of_rat_numeral_eq)
    finally have "(sqrt 20)\<^sup>2 = (real_of_rat ((1050 - 564950690873607 / 549755813888) / 5))\<^sup>2"
      by (rule arg_cong)
    then have "real_of_rat 20 = real_of_rat (((1050 - 564950690873607 / 549755813888) / 5)\<^sup>2)"
      by (simp only: of_rat_power of_rat_numeral_eq) simp
    then have "(20::rat) = ((1050 - 564950690873607 / 549755813888) / 5)\<^sup>2"
      by (simp only: of_rat_eq_iff)
    then show False
      by (simp add: power2_eq_square)
  qed
  moreover have "float_sub (float_add 50 1000) (float_mul 5 (sqrt_double 20))
     = 4519605526988857 / 4398046511104"
  proof -
    have r: "sqrt_double 20 = 629397181890197 / 140737488355328"
      by code_simp
    have m: "float_mul 5 (629397181890197 / 140737488355328)
        = 3146985909450985 / 140737488355328"
      by code_simp
    have a: "float_add 50 1000 = 1050"
      by code_simp
    have t: "float_sub 1050 (3146985909450985 / 140737488355328)
        = 4519605526988857 / 4398046511104"
      by code_simp
    show ?thesis
      by (simp only: r m a t)
  qed
  ultimately show ?thesis
    using soccer_ball_2_4 by (simp add: e)
qed

text \<open>
  Claim C1, amended. For every soccer state and player: the evaluation returns a score
  whenever the distance from the ball to the goal of the opponent is at most \<open>2\<^sup>5\<^sup>1\<^sup>1\<close>;
  every score it returns differs from the possession term plus 1000 minus 5 times that
  distance by at most \<open>2\<^sup>-\<^sup>5\<^sup>0\<close> times \<open>1050 + 5\<close> times the distance; whenever the
  distance is a whole number \<open>k\<close> up to \<open>2\<^sup>2\<^sup>6\<close> no operation rounds and the score is the
  number \<open>\<plusminus>50 + 1000 - 5 k\<close> itself; in particular it is 1025 with the ball at (5,5), the
  goal of the opponent at (5,0) and the ball in the possession of the player.
\<close>

theorem soccer_formula_rounded:
  "(euclidean_distance (get_ball_position s) (get_goal_position s (1 - p)) \<le> 2 ^ 511 \<longrightarrow>
      (\<exists>v. soccer (Soccer s) p = Inr v)) \<and>
   (\<forall>v. soccer (Soccer s) p = Inr v \<longrightarrow>
      \<bar>real_of_rat v - ((if get_possession s = Some p then 50 else - 50) + 1000
          - 5 * euclidean_distance (get_ball_position s) (get_goal_position s (1 - p)))\<bar>
      \<le> (1050 + 5 * euclidean_distance (get_ball_position s) (get_goal_position s (1 - p)))
          / 2 ^ 50) \<and>
   (\<forall>k. 0 \<le> k \<and> k \<le> 2 ^ 26 \<and>
        euclidean_distance (get_ball_position s) (get_goal_position s (1 - p)) = of_int k \<longrightarrow>
        soccer (Soccer s) p
          = Inr (of_int ((if get_possession s = Some p then 50 else - 50) + 1000 - 5 * k))) \<and>
   (get_ball_position s = (5, 5) \<and> get_goal_position s (1 - p) = (5, 0) \<and>
    get_possession s = Some p \<longrightarrow> soccer (Soccer s) p = Inr 1025)"
proof (intro conjI allI impI)
  assume "euclidean_distance (get_ball_position s) (get_goal_position s (1 - p)) \<le> 2 ^ 511"
  then show "\<exists>v. soccer (Soccer s) p = Inr v"
    by (rule soccer_returns)
next
  fix v
  assume "soccer (Soccer s) p = Inr v"
  then show "\<bar>real_of_rat v - ((if get_possession s = Some p then 50 else - 50) + 1000
          - 5 * euclidean_distance (get_ball_position s) (get_goal_position s (1 - p)))\<bar>
      \<le> (1050 + 5 * euclidean_distance (get_ball_position s) (get_goal_position s (1 - p)))
          / 2 ^ 50"
    by (rule soccer_error_bound)
next
  fix k :: int
  assume k: "0 \<le> k \<and> k \<le> 2 ^ 26 \<and>
    euclidean_distance (get_ball_position s) (get_goal_position s (1 - p)) = of_int k"
  define n where "n = (fst (get_ball_position s) - fst (get_goal_position s (1 - p)))\<^sup>2 +
           (snd (get_ball_position s) - snd (get_goal_position s (1 - p)))\<^sup>2"
  have "sqrt (of_int n) = of_int k"
    using k by (simp add: euclidean_distance_def n_def)
  then have "(sqrt (of_int n))\<^sup>2 = (of_int k)\<^sup>2"
    by simp
  moreover have "0 \<le> n"
    unfolding n_def by (rule sqdist_nonneg)
  ultimately have "(of_int n :: real) = of_int (k * k)"
    by (simp add: power2_eq_square)
  then have "n = k * k"
    by (simp only: of_int_eq_iff)
  then show "soccer (Soccer s) p
          = Inr (of_int ((if get_possession s = Some p then 50 else - 50) + 1000 - 5 * k))"
    using k unfolding n_def by (intro soccer_integer_distance) simp_all
next
  assume a: "get_ball_position s = (5, 5) \<and> get_goal_position s (1 - p) = (5, 0) \<and>
    get_possession s = Some p"
  have "soccer (Soccer s) p
      = Inr (of_int ((if get_possession s = Some p then 50 else - 50) + 1000 - 5 * 5))"
    by (rule soccer_integer_distance) (simp_all add: a)
  then show "soccer (Soccer s) p = Inr 1025"
    using a by simp
qed

theorem soccer_formula_rounded_witness:
  "soccer (Soccer \<lparr>get_goal_position = (\<lambda>i. if i = 0 then (5, 10) else (5, 0)),
                   get_ball_position = (5, 5), get_possession = Some 0\<rparr>) 0 = Inr 1025 \<and>
   soccer (Soccer \<lparr>get_goal_position = (\<lambda>i. if i = 0 then (5, 10) else (5, 0)),
                   get_ball_position = (8, 4), get_possession = Some 1\<rparr>) 0 = Inr 925 \<and>
   euclidean_distance (8, 4) (5, 0) = 5 \<and>
   soccer (Soccer \<lparr>get_goal_position = (\<lambda>i. (0, 0)), get_ball_position = (2, 4),
                   get_possession = Some 0\<rparr>) 0 = Inr (564950690873607 / 549755813888) \<and>
   \<bar>real_of_rat (564950690873607 / 549755813888)
      - (50 + 1000 - 5 * euclidean_distance (2, 4) (0, 0))\<bar>
     \<le> (1050 + 5 * euclidean_distance (2, 4) (0, 0)) / 2 ^ 50"
proof -
  let ?g = "\<lambda>i::int. if i = 0 then (5, 10) else (5::int, 0::int)"
  let ?a = "\<lparr>get_goal_position = ?g, get_ball_position = (5, 5), get_possession = Some 0\<rparr>"
  let ?b = "\<lparr>get_goal_position = ?g, get_ball_position = (8, 4), get_possession = Some 1\<rparr>"
  let ?c = "\<lparr>get_goal_position = (\<lambda>i::int. (0::int, 0::int)), get_ball_position = (2, 4),
             get_possession = Some (0::int)\<rparr>"
  have d: "euclidean_distance (8, 4) (5, 0) = 5"
    by (simp add: euclidean_distance_def)
  have "soccer (Soccer ?a) 0 = Inr 1025"
    using soccer_formula_rounded [of ?a 0, THEN conjunct2, THEN conjunct2, THEN conjunct2]
    by simp
  moreover have "soccer (Soccer ?b) 0 = Inr 925"
    using soccer_formula_rounded
      [of ?b 0, THEN conjunct2, THEN conjunct2, THEN conjunct1, rule_format, of 5] d
    by simp
  moreover have "\<bar>real_of_rat (564950690873607 / 549755813888)
      - (50 + 1000 - 5 * euclidean_distance (2, 4) (0, 0))\<bar>
     \<le> (1050 + 5 * euclidean_distance (2, 4) (0, 0)) / 2 ^ 50"
    using soccer_formula_rounded
      [of ?c 0, THEN conjunct2, THEN conjunct1, rule_format, OF soccer_ball_2_4]
    by simp
  ultimately show ?thesis
    using d soccer_ball_2_4 by simp
qed

text \<open>
  Claim C6 says that with the same ball and goals, the score with the ball in the
  possession of \<open>p\<close> exceeds the score with the ball in the possession of \<open>1 - p\<close> by
  exactly 100. With the ball at (1,2) and the goal at (0,0) the two scores are
  1038.819660112501 and 938.8196601125011 as floats, and they differ by
  \<open>100 - 2\<^sup>-\<^sup>4\<^sup>3\<close>: the sum \<open>50 + t\<close> is rounded, the sum \<open>-50 + t\<close> is not.
\<close>

theorem soccer_possession_gap_inexact:
  "soccer (Soccer \<lparr>get_goal_position = (\<lambda>i. (0, 0)), get_ball_position = (1, 2),
                   get_possession = Some 0\<rparr>) 0 = Inr (1142194295456007 / 1099511627776) \<and>
   soccer (Soccer \<lparr>get_goal_position = (\<lambda>i. (0, 0)), get_ball_position = (1, 2),
                   get_possession = Some 1\<rparr>) 0 = Inr (8257945061427257 / 8796093022208) \<and>
   (1142194295456007 / 1099511627776 :: rat) - 8257945061427257 / 8796093022208
     = 100 - 1 / 8796093022208 \<and>
   (1142194295456007 / 1099511627776 :: rat) - 8257945061427257 / 8796093022208 \<noteq> 100"
proof -
  have f: "python_float 5 = Inr 5"
    using python_float_exact [of 5] by simp
  have r: "sqrt_double 5 = 629397181890197 / 281474976710656"
    by code_simp
  have d: "math_sqrt 5 = Inr (629397181890197 / 281474976710656)"
    by (simp add: math_sqrt_def f r)
  have m: "float_mul 5 (629397181890197 / 281474976710656) = 3146985909450985 / 281474976710656"
    by code_simp
  have t: "float_sub 1000 (3146985909450985 / 281474976710656)
      = 8697749712537657 / 8796093022208"
    by code_simp
  have a: "float_add 50 (8697749712537657 / 8796093022208) = 1142194295456007 / 1099511627776"
    by code_simp
  have b: "float_add (- 50) (8697749712537657 / 8796093022208)
      = 8257945061427257 / 8796093022208"
    by code_simp
  show ?thesis
    by (simp add: soccer_Soccer d m t a b)
qed

text \<open>
  Claim C6, amended. For two soccer states with the same ball and the same goal of the
  opponent, the ball in the possession of \<open>p\<close> in the first and of \<open>1 - p\<close> in the second,
  the score of the first for \<open>p\<close> is not below the score of the second, and their
  difference is 100 up to the rounding of the two scores: it differs from 100 by at most
  \<open>2\<^sup>-\<^sup>5\<^sup>3\<close> times the sum of their magnitudes.
\<close>

theorem soccer_possession_gap:
  assumes "get_ball_position a = get_ball_position b"
    and "get_goal_position a (1 - p) = get_goal_position b (1 - p)"
    and "get_possession a = Some p"
    and "get_possession b = Some (1 - p)"
    and "soccer (Soccer a) p = Inr x"
  shows "\<exists>y. soccer (Soccer b) p = Inr y \<and> y \<le> x \<and>
             \<bar>x - y - 100\<bar> \<le> (\<bar>x\<bar> + \<bar>y\<bar>) / 2 ^ 53"
proof -
  define n where "n = (fst (get_ball_position a) - fst (get_goal_position a (1 - p)))\<^sup>2 +
           (snd (get_ball_position a) - snd (get_goal_position a (1 - p)))\<^sup>2"
  have "1 - p \<noteq> p" by presburger
  then have nb: "get_possession b \<noteq> Some p"
    using assms(4) by simp
  obtain d where d: "math_sqrt n = Inr d"
    using assms(5) unfolding soccer_Soccer n_def [symmetric] by (cases "math_sqrt n") simp_all
  define z where "z = 1000 - float_mul 5 d"
  define t where "t = round_double z"
  have x: "x = round_double (t + of_int 50)"
    using assms(5) assms(3) unfolding soccer_Soccer n_def [symmetric] d
    by (simp add: float_add_def float_sub_def t_def z_def add.commute)
  define y where "y = round_double (t + of_int (- 50))"
  have y: "soccer (Soccer b) p = Inr y"
    using nb unfolding soccer_Soccer assms(1,2) [symmetric] n_def [symmetric] d
    by (simp add: float_add_def float_sub_def t_def z_def y_def add.commute)
  have le: "y \<le> x"
    unfolding x y_def by (rule round_double_mono) simp
  have ex: "\<bar>x - (t + of_int 50)\<bar> \<le> \<bar>x\<bar> / 2 ^ 53"
    unfolding x t_def by (rule round_double_rel_error, rule round_double_plus_int_normal) simp_all
  have ey: "\<bar>y - (t + of_int (- 50))\<bar> \<le> \<bar>y\<bar> / 2 ^ 53"
    unfolding y_def t_def
    by (rule round_double_rel_error, rule round_double_plus_int_normal) simp_all
  have "x - y - 100 = (x - (t + of_int 50)) - (y - (t + of_int (- 50)))"
    by simp
  then have "\<bar>x - y - 100\<bar> \<le> \<bar>x - (t + of_int 50)\<bar> + \<bar>y - (t + of_int (- 50))\<bar>"
    by (simp only: abs_triangle_ineq4)
  then have "\<bar>x - y - 100\<bar> \<le> \<bar>x\<bar> / 2 ^ 53 + \<bar>y\<bar> / 2 ^ 53"
    using ex ey by linarith
  then have "\<bar>x - y - 100\<bar> \<le> (\<bar>x\<bar> + \<bar>y\<bar>) / 2 ^ 53"
    by (simp add: add_divide_distrib)
  with y le show ?thesis by blast
qed

theorem soccer_possession_gap_witness:
  "\<exists>y. soccer (Soccer \<lparr>get_goal_position = (\<lambda>i. (5, 0)), get_ball_position = (5, 5),
                        get_possession = Some (1 - 0)\<rparr>) 0 = Inr y \<and> y \<le> 1025 \<and>
        \<bar>1025 - y - 100\<bar> \<le> (\<bar>1025\<bar> + \<bar>y\<bar>) / 2 ^ 53"
proof (rule soccer_possession_gap)
  show "soccer (Soccer \<lparr>get_goal_position = (\<lambda>i. (5, 0)), get_ball_position = (5, 5),
                        get_possession = Some 0\<rparr>) 0 = Inr 1025"
    using soccer_integer_distance
      [of "\<lparr>get_goal_position = (\<lambda>i. (5, 0)), get_ball_position = (5, 5),
            get_possession = Some 0\<rparr>" 0 5]
    by simp
qed simp_all




end
